theory Spec2Isabelle
  imports Main "HOL-Library.Word" "HOL-Library.AList"
begin

unbundle bit_operations_syntax

section \<open>Bytes, Python values and errors\<close>

text \<open>
  A Python \<open>bytes\<close> object is a list of 8-bit words.  Sizes, counts and the integers
  obtained from single bytes are never negative in the program and are natural numbers here;
  signed quantities (64-bit integer constants, biased jump offsets) are integers.
  A Python \<open>str\<close> is a sequence of Unicode code points, and \<open>len\<close> counts code points,
  so it is a list of naturals.  A Python \<open>float\<close> is represented by its IEEE-754 bit
  pattern, which is what \<open>struct.pack('<d', _)\<close> and \<open>struct.unpack('<d', _)\<close> exchange.
\<close>

type_synonym byte = "8 word"
type_synonym bytes = "byte list"
type_synonym pystr = "nat list"

text \<open>
  Every exception the modelled code can raise.  \<open>luaparse.py\<close> raises \<open>struct.error\<close>
  (from \<open>struct.unpack\<close> on a short read and from \<open>struct.pack\<close> on a value out of range)
  and \<open>ValueError\<close> with five different messages; \<open>luajitparse.py\<close> raises \<open>Exception\<close>
  with the messages named by the last five constructors.
\<close>

datatype error =
    StructError
  | VarintOverflow
  | BadSignature
  | VersionMismatch nat
  | UnknownConstantType nat
  | KeyNotSet
  | InstructionCountMismatch
  | UnicodeEncodeError
  | OutOfBounds
  | Uleb128TooLong
  | BadJitSignature
  | UnknownTableItem nat
  | UnknownGCConstant nat

section \<open>Variable-length integers\<close>

subsection \<open>Lua 5.4 sizes: \<open>read_size\<close>, \<open>read_size_with_raw\<close>, \<open>_write_size\<close>\<close>

text \<open>
  \<open>read_byte\<close> is \<open>struct.unpack('B', self.file.read(1))[0]\<close>: at the end of the file
  \<open>read(1)\<close> returns the empty string and \<open>struct.unpack\<close> raises.  The file object is
  represented by the bytes not yet read.
\<close>

definition read_byte :: "bytes \<Rightarrow> error + (nat \<times> bytes)" where
  "read_byte f = (case f of [] \<Rightarrow> Inl StructError | b # f' \<Rightarrow> Inr (unat b, f'))"

definition size_limit :: nat where
  "size_limit = push_bit (8 * 8 - 7) 1"

text \<open>
  The body of the \<open>while True\<close> loop of \<open>read_size\<close>, with the accumulator \<open>x\<close>:
  read a byte, fail when \<open>x\<close> has reached the limit, shift the seven low bits in,
  stop at a byte whose top bit is set.
\<close>

fun read_size_loop :: "nat \<Rightarrow> bytes \<Rightarrow> error + (nat \<times> bytes)" where
  "read_size_loop x [] = Inl StructError"
| "read_size_loop x (b # f) =
     (if x \<ge> size_limit then Inl VarintOverflow
      else let x' = push_bit 7 x OR (unat b AND 0x7f)
           in if unat b AND 0x80 \<noteq> 0 then Inr (x', f) else read_size_loop x' f)"

definition read_size :: "bytes \<Rightarrow> error + (nat \<times> bytes)" where
  "read_size f = read_size_loop 0 f"

text \<open>The same loop, also collecting the bytes it consumed (\<open>raw_data\<close>).\<close>

fun read_size_with_raw_loop :: "nat \<Rightarrow> bytes \<Rightarrow> bytes \<Rightarrow> error + ((nat \<times> bytes) \<times> bytes)" where
  "read_size_with_raw_loop x raw_data [] = Inl StructError"
| "read_size_with_raw_loop x raw_data (b # f) =
     (let raw_data' = raw_data @ [b]
      in if x \<ge> size_limit then Inl VarintOverflow
         else let x' = push_bit 7 x OR (unat b AND 0x7f)
              in if unat b AND 0x80 \<noteq> 0 then Inr ((x', raw_data'), f)
                 else read_size_with_raw_loop x' raw_data' f)"

definition read_size_with_raw :: "bytes \<Rightarrow> error + ((nat \<times> bytes) \<times> bytes)" where
  "read_size_with_raw f = read_size_with_raw_loop 0 [] f"

text \<open>
  \<open>_write_size\<close>: zero is the single byte \<open>0x80\<close>; otherwise the 7-bit groups are
  collected low group first (\<open>bytes_list\<close>), reversed, and the last one written gets the
  top bit.  Every value packed is below 256, so \<open>struct.pack('B', _)\<close> cannot raise here.
\<close>

function bytes_list_of :: "nat \<Rightarrow> nat list" where
  "bytes_list_of v = (if v > 0 then (v AND 0x7f) # bytes_list_of (drop_bit 7 v) else [])"
  by pat_completeness auto
termination
  by (relation "measure id") (auto simp: drop_bit_eq_div)

declare bytes_list_of.simps [simp del]

definition write_size :: "nat \<Rightarrow> bytes" where
  "write_size v =
     (if v = 0 then [0x80]
      else let bytes_list = bytes_list_of v
           in map (\<lambda>(i, byte_val).
                     of_nat (if i = length bytes_list - 1 then byte_val OR 0x80 else byte_val))
                  (enumerate 0 (rev bytes_list)))"

subsection \<open>LuaJIT: \<open>read_uleb128\<close> and \<open>read_uleb128_33\<close>\<close>

text \<open>
  The LuaJIT reader keeps \<open>data\<close>, \<open>pos\<close> and \<open>size\<close>; it only ever looks at
  \<open>data[pos:]\<close>, so the cursor is represented by that unread suffix: \<open>pos >= size\<close> holds
  exactly when the suffix is empty, and \<open>pos + n > size\<close> when it is shorter than \<open>n\<close>.
\<close>

fun read_uleb128_loop :: "nat \<Rightarrow> nat \<Rightarrow> bytes \<Rightarrow> error + (nat \<times> bytes)" where
  "read_uleb128_loop result shift [] = Inl OutOfBounds"
| "read_uleb128_loop result shift (b # s) =
     (let result' = result OR push_bit shift (unat b AND 0x7F)
      in if unat b AND 0x80 = 0 then Inr (result', s)
         else let shift' = shift + 7
              in if shift' \<ge> 35 then Inl Uleb128TooLong
                 else read_uleb128_loop result' shift' s)"

definition read_uleb128 :: "bytes \<Rightarrow> error + (nat \<times> bytes)" where
  "read_uleb128 s = read_uleb128_loop 0 0 s"

text \<open>The continuation loop of \<open>read_uleb128_33\<close>: it also stops, without an error, once
  \<open>shift\<close> has reached 32.\<close>

fun read_uleb128_33_loop :: "nat \<Rightarrow> nat \<Rightarrow> bytes \<Rightarrow> error + (nat \<times> bytes)" where
  "read_uleb128_33_loop lo shift [] = Inl OutOfBounds"
| "read_uleb128_33_loop lo shift (b # s) =
     (let lo' = lo OR push_bit shift (unat b AND 0x7F)
      in if unat b AND 0x80 = 0 then Inr (lo', s)
         else let shift' = shift + 7
              in if shift' \<ge> 32 then Inr (lo', s)
                 else read_uleb128_33_loop lo' shift' s)"

definition read_uleb128_33 :: "bytes \<Rightarrow> error + (((nat \<times> nat) \<times> bool) \<times> bytes)" where
  "read_uleb128_33 s =
     (case s of
        [] \<Rightarrow> Inl OutOfBounds
      | first_byte # s1 \<Rightarrow>
          (let is_number = (unat first_byte AND 0x01 \<noteq> 0);
               lo0 = drop_bit 1 (unat first_byte) AND 0x3F
           in case (if drop_bit 1 (unat first_byte) > 0x3F
                    then read_uleb128_33_loop lo0 6 s1 else Inr (lo0, s1)) of
                Inl e \<Rightarrow> Inl e
              | Inr (lo, s2) \<Rightarrow>
                  (if is_number
                   then (case read_uleb128 s2 of
                           Inl e \<Rightarrow> Inl e
                         | Inr (hi, s3) \<Rightarrow> Inr (((lo, hi), is_number), s3))
                   else Inr (((lo, 0), is_number), s2))))"

text \<open>
  Modelled from the spec: the source has no encoder for the LuaJIT varints (it only reads
  LuaJIT dumps).  The spec's VarintCodec says that each encoder mirrors its decoder: the
  LSB-first scheme emits 7-bit groups low to high, the continuation bit set on every group
  but the last.
\<close>

function encode_uleb128 :: "nat \<Rightarrow> bytes" where
  "encode_uleb128 v =
     (if v < 128 then [of_nat v] else of_nat (v mod 128 + 128) # encode_uleb128 (v div 128))"
  by pat_completeness auto
termination
  by (relation "measure id") auto

declare encode_uleb128.simps [simp del]

text \<open>
  Modelled from the spec: the 33-bit variant puts the float flag in the low bit of the first
  byte and the low word above it, in the same continuation groups; a float is followed by
  the high word as a plain LSB-first varint.
\<close>

definition encode_uleb128_33 :: "nat \<Rightarrow> nat \<Rightarrow> bool \<Rightarrow> bytes" where
  "encode_uleb128_33 lo hi is_number =
     encode_uleb128 (2 * lo + (if is_number then 1 else 0)) @ (if is_number then encode_uleb128 hi else [])"

section \<open>Lua 5.4: constants, \<open>struct\<close> packing and strings\<close>

definition LUA_SIGNATURE :: bytes where
  "LUA_SIGNATURE = [0x1B, 0x4C, 0x75, 0x61]"

definition LUAC_VERSION :: nat where
  "LUAC_VERSION = 0x54"

definition LUAC_FORMAT :: nat where
  "LUAC_FORMAT = 0"

definition LUAC_DATA :: bytes where
  "LUAC_DATA = [0x19, 0x93, 0x0D, 0x0A, 0x1A, 0x0A]"

definition LUAC_INT :: int where
  "LUAC_INT = 0x5678"

text \<open>The float \<open>370.5\<close>, as its IEEE-754 double bit pattern.\<close>

definition LUAC_NUM :: "64 word" where
  "LUAC_NUM = 0x4077280000000000"

text \<open>The type tags of \<open>LuaType\<close> that the constant reader and writer use.\<close>

definition LUA_TNIL :: nat where "LUA_TNIL = 0"
definition LUA_TBOOLEAN :: nat where "LUA_TBOOLEAN = 1"
definition LUA_TNUMBER :: nat where "LUA_TNUMBER = 3"
definition LUA_TSTRING :: nat where "LUA_TSTRING = 4"
definition VNIL :: nat where "VNIL = 0"
definition VFALSE :: nat where "VFALSE = 17"
definition VTRUE :: nat where "VTRUE = 33"
definition VNUMFLT :: nat where "VNUMFLT = 19"
definition VNUMINT :: nat where "VNUMINT = 35"
definition VSHRSTR :: nat where "VSHRSTR = 20"
definition VLNGSTR :: nat where "VLNGSTR = 36"

subsection \<open>\<open>file.read\<close>, \<open>struct.unpack\<close> and \<open>struct.pack\<close>\<close>

text \<open>\<open>self.file.read(n)\<close> returns at most \<open>n\<close> bytes: fewer at the end of the file,
  without an error.\<close>

definition file_read :: "nat \<Rightarrow> bytes \<Rightarrow> bytes \<times> bytes" where
  "file_read n f = (take n f, drop n f)"

text \<open>Little-endian value of a byte string, and the \<open>n\<close> little-endian bytes of a value.\<close>

definition le_nat :: "bytes \<Rightarrow> nat" where
  "le_nat bs = foldr (\<lambda>b acc. unat b + 256 * acc) bs 0"

definition le_bytes :: "nat \<Rightarrow> nat \<Rightarrow> bytes" where
  "le_bytes n v = map (\<lambda>i. of_nat (v div 256 ^ i)) [0..<n]"

text \<open>\<open>struct.unpack\<close> raises \<open>struct.error\<close> unless the buffer has exactly the size of
  the format; \<open>struct.pack\<close> raises it when the value does not fit the format.\<close>

definition unpack_B :: "bytes \<Rightarrow> error + nat" where
  "unpack_B raw = (if length raw = 1 then Inr (le_nat raw) else Inl StructError)"

definition unpack_I :: "bytes \<Rightarrow> error + nat" where
  "unpack_I raw = (if length raw = 4 then Inr (le_nat raw) else Inl StructError)"

definition unpack_q :: "bytes \<Rightarrow> error + int" where
  "unpack_q raw =
     (if length raw = 8
      then Inr (if le_nat raw \<ge> 2 ^ 63 then int (le_nat raw) - 2 ^ 64 else int (le_nat raw))
      else Inl StructError)"

definition unpack_d :: "bytes \<Rightarrow> error + 64 word" where
  "unpack_d raw = (if length raw = 8 then Inr (of_nat (le_nat raw)) else Inl StructError)"

definition pack_B :: "nat \<Rightarrow> error + bytes" where
  "pack_B v = (if v < 256 then Inr [of_nat v] else Inl StructError)"

definition pack_I :: "nat \<Rightarrow> error + bytes" where
  "pack_I v = (if v < 2 ^ 32 then Inr (le_bytes 4 v) else Inl StructError)"

definition pack_q :: "int \<Rightarrow> error + bytes" where
  "pack_q v =
     (if - (2 ^ 63) \<le> v \<and> v < 2 ^ 63 then Inr (le_bytes 8 (nat (v mod 2 ^ 64)))
      else Inl StructError)"

definition pack_d :: "64 word \<Rightarrow> bytes" where
  "pack_d w = le_bytes 8 (unat w)"

subsection \<open>UTF-8\<close>

text \<open>
  \<open>bytes.decode('utf-8', errors='replace')\<close>: every maximal ill-formed part of the input
  becomes one \<open>U+FFFD\<close>; a sequence cut off by the end of the input is one ill-formed part.
  The function works on the byte values.
\<close>

definition is_cont :: "nat \<Rightarrow> bool" where
  "is_cont b = (0x80 \<le> b \<and> b \<le> 0xBF)"

definition second_ok :: "nat \<Rightarrow> nat \<Rightarrow> bool" where
  "second_ok b0 b1 =
     (if b0 = 0xE0 then 0xA0 \<le> b1 \<and> b1 \<le> 0xBF
      else if b0 = 0xED then 0x80 \<le> b1 \<and> b1 \<le> 0x9F
      else if b0 = 0xF0 then 0x90 \<le> b1 \<and> b1 \<le> 0xBF
      else if b0 = 0xF4 then 0x80 \<le> b1 \<and> b1 \<le> 0x8F
      else is_cont b1)"

fun utf8_decode_replace :: "nat list \<Rightarrow> pystr" where
  "utf8_decode_replace [] = []"
| "utf8_decode_replace (b0 # rest) =
     (if b0 < 0x80 then b0 # utf8_decode_replace rest
      else if b0 < 0xC2 \<or> b0 > 0xF4 then 0xFFFD # utf8_decode_replace rest
      else (case rest of
              [] \<Rightarrow> [0xFFFD]
            | b1 # r1 \<Rightarrow>
               (if b0 < 0xE0
                then (if is_cont b1
                      then ((b0 - 0xC0) * 64 + (b1 - 0x80)) # utf8_decode_replace r1
                      else 0xFFFD # utf8_decode_replace rest)
                else if \<not> second_ok b0 b1 then 0xFFFD # utf8_decode_replace rest
                else (case r1 of
                        [] \<Rightarrow> [0xFFFD]
                      | b2 # r2 \<Rightarrow>
                         (if b0 < 0xF0
                          then (if is_cont b2
                                then ((b0 - 0xE0) * 4096 + (b1 - 0x80) * 64 + (b2 - 0x80))
                                       # utf8_decode_replace r2
                                else 0xFFFD # utf8_decode_replace r1)
                          else if \<not> is_cont b2 then 0xFFFD # utf8_decode_replace r1
                          else (case r2 of
                                  [] \<Rightarrow> [0xFFFD]
                                | b3 # r3 \<Rightarrow>
                                   (if is_cont b3
                                    then ((b0 - 0xF0) * 262144 + (b1 - 0x80) * 4096
                                            + (b2 - 0x80) * 64 + (b3 - 0x80))
                                           # utf8_decode_replace r3
                                    else 0xFFFD # utf8_decode_replace r2)))))))"

definition decode_utf8 :: "bytes \<Rightarrow> pystr" where
  "decode_utf8 data = utf8_decode_replace (map unat data)"

text \<open>\<open>str.encode('utf-8')\<close>: a surrogate code point raises \<open>UnicodeEncodeError\<close>.
  A Python string holds no code point above \<open>0x10FFFF\<close>.\<close>

definition utf8_encode_char :: "nat \<Rightarrow> error + nat list" where
  "utf8_encode_char c =
     (if c < 0x80 then Inr [c]
      else if c < 0x800 then Inr [0xC0 + c div 64, 0x80 + c mod 64]
      else if 0xD800 \<le> c \<and> c \<le> 0xDFFF then Inl UnicodeEncodeError
      else if c < 0x10000 then Inr [0xE0 + c div 4096, 0x80 + c div 64 mod 64, 0x80 + c mod 64]
      else Inr [0xF0 + c div 262144, 0x80 + c div 4096 mod 64, 0x80 + c div 64 mod 64,
                0x80 + c mod 64])"

fun encode_utf8 :: "pystr \<Rightarrow> error + bytes" where
  "encode_utf8 [] = Inr []"
| "encode_utf8 (c # cs) =
     (case utf8_encode_char c of
        Inl e \<Rightarrow> Inl e
      | Inr bs \<Rightarrow> (case encode_utf8 cs of
                     Inl e \<Rightarrow> Inl e
                   | Inr rest \<Rightarrow> Inr (map of_nat bs @ rest)))"

section \<open>Lua 5.4: the prototype tree\<close>

text \<open>A constant is a Python value: \<open>None\<close>, a \<open>bool\<close>, a \<open>float\<close>, an \<open>int\<close> or a \<open>str\<close>.\<close>

datatype lua_const = PyNone | PyBool bool | PyFloat "64 word" | PyInt int | PyStr pystr

record Upvalue =
  instack :: nat
  idx :: nat
  kind :: nat
  upvalue_ori :: bytes

record LocVar =
  varname :: "pystr option"
  startpc :: nat
  endpc :: nat
  locvar_ori :: bytes

record AbsLineInfo =
  pc :: nat
  line :: nat
  absline_ori :: bytes

text \<open>
  The class \<open>Proto\<close>.  Its fields other than the child list form a record, and the tree is
  a datatype over that record; \<open>ori\<close> is the dictionary of captured raw bytes, in insertion
  order.
\<close>

record proto_fields =
  source :: "pystr option"
  linedefined :: nat
  lastlinedefined :: nat
  numparams :: nat
  is_vararg :: nat
  maxstacksize :: nat
  code :: "nat list"
  constants :: "lua_const list"
  upvalues :: "Upvalue list"
  lineinfo :: "nat list"
  abslineinfo :: "AbsLineInfo list"
  locvars :: "LocVar list"
  upvalue_names :: "pystr option list"
  ori :: "(string \<times> bytes) list"

datatype Proto = Proto (fields_of: proto_fields) (protos: "Proto list")

text \<open>The dictionary that \<open>__post_init__\<close> installs.\<close>

definition post_init_ori :: "(string \<times> bytes) list" where
  "post_init_ori =
     [(''source'', []), (''linedefined'', []), (''lastlinedefined'', []), (''numparams'', []),
      (''is_vararg'', []), (''maxstacksize'', []), (''code'', []), (''constants'', []),
      (''upvalues'', []), (''protos'', []), (''lineinfo'', []), (''abslineinfo'', []),
      (''locvars'', []), (''upvalue_names'', [])]"

text \<open>The fields of the \<open>Proto\<close> that \<open>read_proto\<close> starts from.\<close>

definition new_proto_fields :: proto_fields where
  "new_proto_fields =
     \<lparr>source = None, linedefined = 0, lastlinedefined = 0, numparams = 0, is_vararg = 0,
      maxstacksize = 0, code = [], constants = [], upvalues = [], lineinfo = [],
      abslineinfo = [], locvars = [], upvalue_names = [], ori = post_init_ori\<rparr>"

section \<open>Lua 5.4: the reader (\<open>LuacParser\<close>)\<close>

text \<open>
  The attribute \<open>_record_raw_data\<close> is set to \<open>True\<close> by the constructor and never
  changed, so every reader takes its raw-recording branch; that branch is what is modelled.
  Printing is left out.
\<close>

definition read_integer :: "bytes \<Rightarrow> error + (int \<times> bytes)" where
  "read_integer f =
     (case file_read 8 f of (raw, f') \<Rightarrow>
        (case unpack_q raw of Inl e \<Rightarrow> Inl e | Inr v \<Rightarrow> Inr (v, f')))"

definition read_number :: "bytes \<Rightarrow> error + (64 word \<times> bytes)" where
  "read_number f =
     (case file_read 8 f of (raw, f') \<Rightarrow>
        (case unpack_d raw of Inl e \<Rightarrow> Inl e | Inr v \<Rightarrow> Inr (v, f')))"

definition read_byte_with_raw :: "bytes \<Rightarrow> error + ((nat \<times> bytes) \<times> bytes)" where
  "read_byte_with_raw f =
     (case file_read 1 f of (raw_data, f') \<Rightarrow>
        (case unpack_B raw_data of Inl e \<Rightarrow> Inl e | Inr v \<Rightarrow> Inr ((v, raw_data), f')))"

definition read_integer_with_raw :: "bytes \<Rightarrow> error + ((int \<times> bytes) \<times> bytes)" where
  "read_integer_with_raw f =
     (case file_read 8 f of (raw_data, f') \<Rightarrow>
        (case unpack_q raw_data of Inl e \<Rightarrow> Inl e | Inr v \<Rightarrow> Inr ((v, raw_data), f')))"

definition read_number_with_raw :: "bytes \<Rightarrow> error + ((64 word \<times> bytes) \<times> bytes)" where
  "read_number_with_raw f =
     (case file_read 8 f of (raw_data, f') \<Rightarrow>
        (case unpack_d raw_data of Inl e \<Rightarrow> Inl e | Inr v \<Rightarrow> Inr ((v, raw_data), f')))"

text \<open>\<open>read_string_with_raw\<close>: size zero is \<open>None\<close>; otherwise \<open>size - 1\<close> bytes are
  requested from the file and whatever \<open>read\<close> returns is decoded.\<close>

definition read_string_with_raw :: "bytes \<Rightarrow> error + ((pystr option \<times> bytes) \<times> bytes)" where
  "read_string_with_raw f =
     (case read_size_with_raw f of
        Inl e \<Rightarrow> Inl e
      | Inr ((size', size_raw), f1) \<Rightarrow>
          (if size' = 0 then Inr ((None, size_raw), f1)
           else (case file_read (size' - 1) f1 of (string_data, f2) \<Rightarrow>
                   Inr ((Some (decode_utf8 string_data), size_raw @ string_data), f2))))"

subsection \<open>\<open>check_header\<close>\<close>

definition check_header :: "bytes \<Rightarrow> error + bytes" where
  "check_header f =
     (case file_read 4 f of (signature, f1) \<Rightarrow>
        if signature \<noteq> LUA_SIGNATURE then Inl BadSignature
        else (case read_byte f1 of Inl e \<Rightarrow> Inl e | Inr (version, f2) \<Rightarrow>
          if version \<noteq> LUAC_VERSION then Inl (VersionMismatch version)
          else (case read_byte f2 of Inl e \<Rightarrow> Inl e | Inr (format_byte, f3) \<Rightarrow>
            (case file_read 6 f3 of (data, f4) \<Rightarrow>
              (case read_byte f4 of Inl e \<Rightarrow> Inl e | Inr (inst_size, f5) \<Rightarrow>
                (case read_byte f5 of Inl e \<Rightarrow> Inl e | Inr (int_size, f6) \<Rightarrow>
                  (case read_byte f6 of Inl e \<Rightarrow> Inl e | Inr (num_size, f7) \<Rightarrow>
                    (case read_integer f7 of Inl e \<Rightarrow> Inl e | Inr (test_int, f8) \<Rightarrow>
                      (case read_number f8 of Inl e \<Rightarrow> Inl e | Inr (test_num, f9) \<Rightarrow>
                         Inr f9)))))))))"

subsection \<open>Counted loops\<close>

text \<open>
  Every counted loop of the reader has one shape: \<open>for i in range(n)\<close>, read one item
  together with its raw bytes, append the item to the list and the raw bytes to the
  group's raw data.  \<open>read_loop\<close> is that loop for an item reader \<open>rd\<close>.
\<close>

fun read_loop ::
  "(bytes \<Rightarrow> error + (('a \<times> bytes) \<times> bytes)) \<Rightarrow> nat \<Rightarrow> 'a list \<Rightarrow> bytes \<Rightarrow> bytes
     \<Rightarrow> error + (('a list \<times> bytes) \<times> bytes)" where
  "read_loop rd 0 xs raw f = Inr ((xs, raw), f)"
| "read_loop rd (Suc n) xs raw f =
     (case rd f of
        Inl e \<Rightarrow> Inl e
      | Inr ((x, x_raw), f') \<Rightarrow> read_loop rd n (xs @ [x]) (raw @ x_raw) f')"

subsection \<open>\<open>read_code\<close>\<close>

definition read_instruction :: "bytes \<Rightarrow> error + ((nat \<times> bytes) \<times> bytes)" where
  "read_instruction f =
     (case file_read 4 f of (inst_raw, f') \<Rightarrow>
        (case unpack_I inst_raw of Inl e \<Rightarrow> Inl e | Inr inst \<Rightarrow> Inr ((inst, inst_raw), f')))"

definition read_code :: "proto_fields \<Rightarrow> bytes \<Rightarrow> error + (proto_fields \<times> bytes)" where
  "read_code proto f =
     (case read_size_with_raw f of
        Inl e \<Rightarrow> Inl e
      | Inr ((n, n_raw), f1) \<Rightarrow>
          (case read_loop read_instruction n [] n_raw f1 of
             Inl e \<Rightarrow> Inl e
           | Inr ((code', code_raw), f2) \<Rightarrow>
               Inr (proto\<lparr>code := code', ori := AList.update ''code'' code_raw (ori proto)\<rparr>, f2)))"

subsection \<open>\<open>read_constants\<close>\<close>

text \<open>One pass of the loop body: the tag byte, then the branch of the \<open>if\<close>/\<open>elif\<close> chain,
  in the order of the source.  The result is the constant and its raw bytes.\<close>

definition read_constant :: "bytes \<Rightarrow> error + ((lua_const \<times> bytes) \<times> bytes)" where
  "read_constant f =
     (case read_byte_with_raw f of
        Inl e \<Rightarrow> Inl e
      | Inr ((t, t_raw), f1) \<Rightarrow>
         (let base_type = t AND 0x0F;
              variant = drop_bit 4 t AND 0x0F;
              number_case = (case read_number_with_raw f1 of
                               Inl e \<Rightarrow> Inl e
                             | Inr ((v, v_raw), f2) \<Rightarrow> Inr ((PyFloat v, t_raw @ v_raw), f2));
              integer_case = (case read_integer_with_raw f1 of
                                Inl e \<Rightarrow> Inl e
                              | Inr ((v, v_raw), f2) \<Rightarrow> Inr ((PyInt v, t_raw @ v_raw), f2));
              string_case = (case read_string_with_raw f1 of
                               Inl e \<Rightarrow> Inl e
                             | Inr ((v, v_raw), f2) \<Rightarrow>
                                 Inr ((case v of None \<Rightarrow> PyNone | Some s \<Rightarrow> PyStr s,
                                       t_raw @ v_raw), f2))
          in if t = VNIL \<or> base_type = LUA_TNIL then Inr ((PyNone, t_raw), f1)
             else if t = VFALSE then Inr ((PyBool False, t_raw), f1)
             else if t = VTRUE then Inr ((PyBool True, t_raw), f1)
             else if t = VNUMFLT then number_case
             else if t = VNUMINT then integer_case
             else if t = VSHRSTR \<or> t = VLNGSTR then string_case
             else if base_type = LUA_TBOOLEAN
                  then (if variant = 0 then Inr ((PyBool False, t_raw), f1)
                        else Inr ((PyBool True, t_raw), f1))
             else if base_type = LUA_TNUMBER
                  then (if variant = 0 then number_case else integer_case)
             else if base_type = LUA_TSTRING then string_case
             else Inl (UnknownConstantType t)))"

definition read_constants :: "proto_fields \<Rightarrow> bytes \<Rightarrow> error + (proto_fields \<times> bytes)" where
  "read_constants proto f =
     (case read_size_with_raw f of
        Inl e \<Rightarrow> Inl e
      | Inr ((n, n_raw), f1) \<Rightarrow>
          (case read_loop read_constant n [] n_raw f1 of
             Inl e \<Rightarrow> Inl e
           | Inr ((cs, constants_raw), f2) \<Rightarrow>
               Inr (proto\<lparr>constants := cs,
                          ori := AList.update ''constants'' constants_raw (ori proto)\<rparr>, f2)))"

subsection \<open>\<open>read_upvalues\<close>\<close>

definition read_upvalue :: "bytes \<Rightarrow> error + ((Upvalue \<times> bytes) \<times> bytes)" where
  "read_upvalue f =
     (case read_byte_with_raw f of Inl e \<Rightarrow> Inl e | Inr ((instack', instack_raw), f1) \<Rightarrow>
       (case read_byte_with_raw f1 of Inl e \<Rightarrow> Inl e | Inr ((idx', idx_raw), f2) \<Rightarrow>
         (case read_byte_with_raw f2 of Inl e \<Rightarrow> Inl e | Inr ((kind', kind_raw), f3) \<Rightarrow>
            (let upvalue_raw = instack_raw @ idx_raw @ kind_raw
             in Inr ((\<lparr>instack = instack', idx = idx', kind = kind',
                       upvalue_ori = upvalue_raw\<rparr>, upvalue_raw), f3)))))"

definition read_upvalues :: "proto_fields \<Rightarrow> bytes \<Rightarrow> error + (proto_fields \<times> bytes)" where
  "read_upvalues proto f =
     (case read_size_with_raw f of
        Inl e \<Rightarrow> Inl e
      | Inr ((n, n_raw), f1) \<Rightarrow>
          (case read_loop read_upvalue n [] n_raw f1 of
             Inl e \<Rightarrow> Inl e
           | Inr ((us, upvalues_raw), f2) \<Rightarrow>
               Inr (proto\<lparr>upvalues := us,
                          ori := AList.update ''upvalues'' upvalues_raw (ori proto)\<rparr>, f2)))"

subsection \<open>\<open>read_debug\<close>\<close>

definition read_absline :: "bytes \<Rightarrow> error + ((AbsLineInfo \<times> bytes) \<times> bytes)" where
  "read_absline f =
     (case read_size_with_raw f of Inl e \<Rightarrow> Inl e | Inr ((pc', pc_raw), f1) \<Rightarrow>
       (case read_size_with_raw f1 of Inl e \<Rightarrow> Inl e | Inr ((line', line_raw), f2) \<Rightarrow>
          (let abs_raw = pc_raw @ line_raw
           in Inr ((\<lparr>pc = pc', line = line', absline_ori = abs_raw\<rparr>, abs_raw), f2))))"

definition read_locvar :: "bytes \<Rightarrow> error + ((LocVar \<times> bytes) \<times> bytes)" where
  "read_locvar f =
     (case read_string_with_raw f of Inl e \<Rightarrow> Inl e | Inr ((varname', varname_raw), f1) \<Rightarrow>
       (case read_size_with_raw f1 of Inl e \<Rightarrow> Inl e | Inr ((startpc', startpc_raw), f2) \<Rightarrow>
         (case read_size_with_raw f2 of Inl e \<Rightarrow> Inl e | Inr ((endpc', endpc_raw), f3) \<Rightarrow>
            (let locvar_raw = varname_raw @ startpc_raw @ endpc_raw
             in Inr ((\<lparr>varname = varname', startpc = startpc', endpc = endpc',
                       locvar_ori = locvar_raw\<rparr>, locvar_raw), f3)))))"

text \<open>Python's \<open>b[i:j]\<close> for \<open>0 \<le> i \<le> j\<close>.\<close>

definition slice :: "nat \<Rightarrow> nat \<Rightarrow> 'a list \<Rightarrow> 'a list" where
  "slice i j xs = take (j - i) (drop i xs)"

text \<open>The four groups of debug information share one raw buffer \<open>debug_raw\<close>, which
  the source then cuts into quarters by length for the four \<open>ori\<close> entries.\<close>

definition read_debug :: "proto_fields \<Rightarrow> bytes \<Rightarrow> error + (proto_fields \<times> bytes)" where
  "read_debug proto f =
     (case read_size_with_raw f of Inl e \<Rightarrow> Inl e | Inr ((n1, n1_raw), f1) \<Rightarrow>
      (case read_loop read_byte_with_raw n1 [] ([] @ n1_raw) f1 of Inl e \<Rightarrow> Inl e
       | Inr ((lineinfo', raw1), f2) \<Rightarrow>
      (case read_size_with_raw f2 of Inl e \<Rightarrow> Inl e | Inr ((n2, n2_raw), f3) \<Rightarrow>
      (case read_loop read_absline n2 [] (raw1 @ n2_raw) f3 of Inl e \<Rightarrow> Inl e
       | Inr ((abslineinfo', raw2), f4) \<Rightarrow>
      (case read_size_with_raw f4 of Inl e \<Rightarrow> Inl e | Inr ((n3, n3_raw), f5) \<Rightarrow>
      (case read_loop read_locvar n3 [] (raw2 @ n3_raw) f5 of Inl e \<Rightarrow> Inl e
       | Inr ((locvars', raw3), f6) \<Rightarrow>
      (case read_size_with_raw f6 of Inl e \<Rightarrow> Inl e | Inr ((n4, n4_raw), f7) \<Rightarrow>
      (case read_loop read_string_with_raw n4 [] (raw3 @ n4_raw) f7 of Inl e \<Rightarrow> Inl e
       | Inr ((upvalue_names', debug_raw), f8) \<Rightarrow>
         (let l = length debug_raw;
              ori1 = AList.update ''lineinfo'' (take (l div 4) debug_raw) (ori proto);
              ori2 = AList.update ''abslineinfo'' (slice (l div 4) (l div 2) debug_raw) ori1;
              ori3 = AList.update ''locvars'' (slice (l div 2) (3 * l div 4) debug_raw) ori2;
              ori4 = AList.update ''upvalue_names'' (drop (3 * l div 4) debug_raw) ori3
          in Inr (proto\<lparr>lineinfo := lineinfo', abslineinfo := abslineinfo',
                        locvars := locvars', upvalue_names := upvalue_names', ori := ori4\<rparr>,
                  f8))))))))))"

subsection \<open>The fields of \<open>read_proto\<close> that come before the instruction stream\<close>

text \<open>The head of \<open>read_proto\<close>: the source name (inherited from the parent when absent),
  the two line numbers and the three one-byte fields, each with its \<open>ori\<close> entry.\<close>

definition read_proto_basic :: "pystr option \<Rightarrow> bytes \<Rightarrow> error + (proto_fields \<times> bytes)" where
  "read_proto_basic parent_source f =
     (case read_string_with_raw f of Inl e \<Rightarrow> Inl e | Inr ((source', source_raw), f1) \<Rightarrow>
      (let proto0 = new_proto_fields\<lparr>source := source',
                      ori := AList.update ''source'' source_raw (ori new_proto_fields)\<rparr>;
           proto1 = (if source proto0 = None then proto0\<lparr>source := parent_source\<rparr> else proto0)
       in
      (case read_size_with_raw f1 of Inl e \<Rightarrow> Inl e | Inr ((linedefined', linedefined_raw), f2) \<Rightarrow>
      (case read_size_with_raw f2 of Inl e \<Rightarrow> Inl e
       | Inr ((lastlinedefined', lastlinedefined_raw), f3) \<Rightarrow>
      (case read_byte_with_raw f3 of Inl e \<Rightarrow> Inl e | Inr ((numparams', numparams_raw), f4) \<Rightarrow>
      (case read_byte_with_raw f4 of Inl e \<Rightarrow> Inl e | Inr ((is_vararg', is_vararg_raw), f5) \<Rightarrow>
      (case read_byte_with_raw f5 of Inl e \<Rightarrow> Inl e
       | Inr ((maxstacksize', maxstacksize_raw), f6) \<Rightarrow>
         Inr (proto1\<lparr>linedefined := linedefined', lastlinedefined := lastlinedefined',
                      numparams := numparams', is_vararg := is_vararg',
                      maxstacksize := maxstacksize',
                      ori := AList.update ''maxstacksize'' maxstacksize_raw
                              (AList.update ''is_vararg'' is_vararg_raw
                                (AList.update ''numparams'' numparams_raw
                                  (AList.update ''lastlinedefined'' lastlinedefined_raw
                                    (AList.update ''linedefined'' linedefined_raw
                                      (ori proto1)))))\<rparr>, f6))))))))"

text \<open>The part of \<open>read_proto\<close> up to the child list: the head, then \<open>read_code\<close>,
  \<open>read_constants\<close> and \<open>read_upvalues\<close>.\<close>

definition read_proto_pre :: "pystr option \<Rightarrow> bytes \<Rightarrow> error + (proto_fields \<times> bytes)" where
  "read_proto_pre parent_source f =
     (case read_proto_basic parent_source f of Inl e \<Rightarrow> Inl e | Inr (p0, f0) \<Rightarrow>
      (case read_code p0 f0 of Inl e \<Rightarrow> Inl e | Inr (p1, f1) \<Rightarrow>
       (case read_constants p1 f1 of Inl e \<Rightarrow> Inl e | Inr (p2, f2) \<Rightarrow>
          read_upvalues p2 f2)))"

subsection \<open>No reader lengthens the input\<close>

lemma read_size_with_raw_loop_shorter:
  "read_size_with_raw_loop x raw f = Inr (r, f') \<Longrightarrow> length f' < length f"
proof (induction f arbitrary: x raw)
  case Nil
  then show ?case by simp
next
  case (Cons b f)
  show ?case
  proof (cases "unat b AND 0x80 \<noteq> 0")
    case True
    with Cons.prems show ?thesis by (auto simp: Let_def split: if_splits)
  next
    case False
    with Cons.prems have "read_size_with_raw_loop (push_bit 7 x OR (unat b AND 0x7f)) (raw @ [b]) f = Inr (r, f')"
      by (auto simp: Let_def split: if_splits)
    then have "length f' < length f" by (rule Cons.IH)
    then show ?thesis by simp
  qed
qed

lemma read_size_with_raw_shorter:
  "read_size_with_raw f = Inr (r, f') \<Longrightarrow> length f' < length f"
  unfolding read_size_with_raw_def by (rule read_size_with_raw_loop_shorter)

lemma read_byte_with_raw_le:
  "read_byte_with_raw f = Inr (r, f') \<Longrightarrow> length f' \<le> length f"
  by (auto simp: read_byte_with_raw_def file_read_def split: sum.splits)

lemma read_string_with_raw_shorter:
  "read_string_with_raw f = Inr (r, f') \<Longrightarrow> length f' < length f"
  by (auto simp: read_string_with_raw_def file_read_def split: sum.splits if_splits prod.splits
           dest!: read_size_with_raw_shorter)

lemma read_loop_le:
  assumes rd: "\<And>f r f'. rd f = Inr (r, f') \<Longrightarrow> length f' \<le> length f"
    and run: "read_loop rd n xs raw f = Inr (r, f')"
  shows "length f' \<le> length f"
  using run
proof (induction n arbitrary: xs raw f)
  case 0
  then show ?case by simp
next
  case (Suc n)
  from Suc.prems obtain x x_raw f1 where a: "rd f = Inr ((x, x_raw), f1)"
    and b: "read_loop rd n (xs @ [x]) (raw @ x_raw) f1 = Inr (r, f')"
    by (auto split: sum.splits)
  have "length f1 \<le> length f" using a by (rule rd)
  moreover have "length f' \<le> length f1" using b by (rule Suc.IH)
  ultimately show ?case by simp
qed

lemma file_read_le: "file_read n f = (r, f') \<Longrightarrow> length f' \<le> length f"
  by (auto simp: file_read_def)

lemma read_instruction_le:
  "read_instruction f = Inr (r, f') \<Longrightarrow> length f' \<le> length f"
  by (auto simp: read_instruction_def file_read_def split: sum.splits)

lemma read_number_with_raw_le:
  "read_number_with_raw f = Inr (r, f') \<Longrightarrow> length f' \<le> length f"
  by (auto simp: read_number_with_raw_def file_read_def split: sum.splits)

lemma read_integer_with_raw_le:
  "read_integer_with_raw f = Inr (r, f') \<Longrightarrow> length f' \<le> length f"
  by (auto simp: read_integer_with_raw_def file_read_def split: sum.splits)

lemma read_string_with_raw_le:
  "read_string_with_raw f = Inr (r, f') \<Longrightarrow> length f' \<le> length f"
  by (drule read_string_with_raw_shorter) simp

lemma read_size_with_raw_le:
  "read_size_with_raw f = Inr (r, f') \<Longrightarrow> length f' \<le> length f"
  by (drule read_size_with_raw_shorter) simp

lemma read_constant_le:
  assumes "read_constant f = Inr (r, f')"
  shows "length f' \<le> length f"
proof -
  obtain t t_raw f1 where b: "read_byte_with_raw f = Inr ((t, t_raw), f1)"
    using assms by (auto simp: read_constant_def split: sum.splits)
  have l1: "length f1 \<le> length f" using b by (rule read_byte_with_raw_le)
  have "length f' \<le> length f1"
    using assms unfolding read_constant_def b
    by (auto simp: Let_def split: if_splits sum.splits
             dest: read_number_with_raw_le read_integer_with_raw_le read_string_with_raw_le)
  with l1 show ?thesis by simp
qed

lemma read_upvalue_le:
  "read_upvalue f = Inr (r, f') \<Longrightarrow> length f' \<le> length f"
  by (fastforce simp: read_upvalue_def Let_def split: sum.splits dest: read_byte_with_raw_le)

lemma read_absline_le:
  "read_absline f = Inr (r, f') \<Longrightarrow> length f' \<le> length f"
  by (fastforce simp: read_absline_def Let_def split: sum.splits dest: read_size_with_raw_le)

lemma read_locvar_le:
  "read_locvar f = Inr (r, f') \<Longrightarrow> length f' \<le> length f"
  by (fastforce simp: read_locvar_def Let_def split: sum.splits
        dest: read_size_with_raw_le read_string_with_raw_le)


lemma loop_instruction_le:
  "read_loop read_instruction n xs raw f = Inr (r, f') \<Longrightarrow> length f' \<le> length f"
  by (rule read_loop_le [where rd = read_instruction]) (erule read_instruction_le, assumption)

lemma loop_constant_le:
  "read_loop read_constant n xs raw f = Inr (r, f') \<Longrightarrow> length f' \<le> length f"
  by (rule read_loop_le [where rd = read_constant]) (erule read_constant_le, assumption)

lemma loop_upvalue_le:
  "read_loop read_upvalue n xs raw f = Inr (r, f') \<Longrightarrow> length f' \<le> length f"
  by (rule read_loop_le [where rd = read_upvalue]) (erule read_upvalue_le, assumption)

lemma loop_byte_le:
  "read_loop read_byte_with_raw n xs raw f = Inr (r, f') \<Longrightarrow> length f' \<le> length f"
  by (rule read_loop_le [where rd = read_byte_with_raw]) (erule read_byte_with_raw_le, assumption)

lemma loop_absline_le:
  "read_loop read_absline n xs raw f = Inr (r, f') \<Longrightarrow> length f' \<le> length f"
  by (rule read_loop_le [where rd = read_absline]) (erule read_absline_le, assumption)

lemma loop_locvar_le:
  "read_loop read_locvar n xs raw f = Inr (r, f') \<Longrightarrow> length f' \<le> length f"
  by (rule read_loop_le [where rd = read_locvar]) (erule read_locvar_le, assumption)

lemma loop_string_le:
  "read_loop read_string_with_raw n xs raw f = Inr (r, f') \<Longrightarrow> length f' \<le> length f"
  by (rule read_loop_le [where rd = read_string_with_raw]) (erule read_string_with_raw_le, assumption)

lemma read_code_shorter:
  assumes "read_code p f = Inr (r, f')"
  shows "length f' < length f"
proof -
  obtain a f1 b where 1: "read_size_with_raw f = Inr (a, f1)"
    and 2: "read_loop read_instruction (fst a) [] (snd a) f1 = Inr (b, f')"
    using assms unfolding read_code_def by (auto split: sum.splits)
  show ?thesis
    using read_size_with_raw_shorter [OF 1] loop_instruction_le [OF 2] by linarith
qed

lemma read_constants_shorter:
  assumes "read_constants p f = Inr (r, f')"
  shows "length f' < length f"
proof -
  obtain a f1 b where 1: "read_size_with_raw f = Inr (a, f1)"
    and 2: "read_loop read_constant (fst a) [] (snd a) f1 = Inr (b, f')"
    using assms unfolding read_constants_def by (auto split: sum.splits)
  show ?thesis
    using read_size_with_raw_shorter [OF 1] loop_constant_le [OF 2] by linarith
qed

lemma read_upvalues_shorter:
  assumes "read_upvalues p f = Inr (r, f')"
  shows "length f' < length f"
proof -
  obtain a f1 b where 1: "read_size_with_raw f = Inr (a, f1)"
    and 2: "read_loop read_upvalue (fst a) [] (snd a) f1 = Inr (b, f')"
    using assms unfolding read_upvalues_def by (auto split: sum.splits)
  show ?thesis
    using read_size_with_raw_shorter [OF 1] loop_upvalue_le [OF 2] by linarith
qed

lemma read_proto_basic_shorter:
  assumes "read_proto_basic ps f = Inr (r, f')"
  shows "length f' < length f"
proof -
  obtain a f1 b f2 c f3 d f4 e f5 g where
    1: "read_string_with_raw f = Inr (a, f1)" and 2: "read_size_with_raw f1 = Inr (b, f2)"
    and 3: "read_size_with_raw f2 = Inr (c, f3)" and 4: "read_byte_with_raw f3 = Inr (d, f4)"
    and 5: "read_byte_with_raw f4 = Inr (e, f5)" and 6: "read_byte_with_raw f5 = Inr (g, f')"
    using assms unfolding read_proto_basic_def Let_def
    by (auto split: sum.splits)
  show ?thesis
    using read_string_with_raw_shorter [OF 1] read_size_with_raw_le [OF 2]
      read_size_with_raw_le [OF 3] read_byte_with_raw_le [OF 4] read_byte_with_raw_le [OF 5]
      read_byte_with_raw_le [OF 6]
    by linarith
qed

lemma read_proto_pre_shorter:
  assumes "read_proto_pre ps f = Inr (r, f')"
  shows "length f' < length f"
proof -
  obtain p0 f0 p1 f1 p2 f2 where
    0: "read_proto_basic ps f = Inr (p0, f0)" and 1: "read_code p0 f0 = Inr (p1, f1)"
    and 2: "read_constants p1 f1 = Inr (p2, f2)" and 3: "read_upvalues p2 f2 = Inr (r, f')"
    using assms unfolding read_proto_pre_def by (auto split: sum.splits)
  show ?thesis
    using read_proto_basic_shorter [OF 0] read_code_shorter [OF 1] read_constants_shorter [OF 2]
      read_upvalues_shorter [OF 3]
    by linarith
qed

lemma read_debug_le:
  assumes "read_debug p f = Inr (r, f')"
  shows "length f' \<le> length f"
proof -
  obtain a1 f1 b1 f2 a2 f3 b2 f4 a3 f5 b3 f6 a4 f7 b4 where
    1: "read_size_with_raw f = Inr (a1, f1)"
    and 2: "read_loop read_byte_with_raw (fst a1) [] ([] @ snd a1) f1 = Inr (b1, f2)"
    and 3: "read_size_with_raw f2 = Inr (a2, f3)"
    and 4: "read_loop read_absline (fst a2) [] (snd b1 @ snd a2) f3 = Inr (b2, f4)"
    and 5: "read_size_with_raw f4 = Inr (a3, f5)"
    and 6: "read_loop read_locvar (fst a3) [] (snd b2 @ snd a3) f5 = Inr (b3, f6)"
    and 7: "read_size_with_raw f6 = Inr (a4, f7)"
    and 8: "read_loop read_string_with_raw (fst a4) [] (snd b3 @ snd a4) f7 = Inr (b4, f')"
    using assms unfolding read_debug_def Let_def
    by (auto split: sum.splits)
  show ?thesis
    using read_size_with_raw_le [OF 1] loop_byte_le [OF 2]
      read_size_with_raw_le [OF 3] loop_absline_le [OF 4]
      read_size_with_raw_le [OF 5] loop_locvar_le [OF 6]
      read_size_with_raw_le [OF 7] loop_string_le [OF 8]
    by linarith
qed

subsection \<open>\<open>read_proto\<close>, \<open>read_protos\<close> and \<open>parse\<close>\<close>

text \<open>
  \<open>read_proto\<close> reads the fields up to the upvalues, then the children (\<open>read_protos\<close>: the
  count, then that many calls of \<open>read_proto\<close> with this prototype's source name), then the
  debug information.  The raw data recorded for the children is the count alone.
  The recursion follows the input: every call consumes at least one byte.
\<close>

function read_proto :: "pystr option \<Rightarrow> bytes \<Rightarrow> error + (Proto \<times> bytes)"
  and read_protos_loop ::
    "nat \<Rightarrow> pystr option \<Rightarrow> Proto list \<Rightarrow> bytes \<Rightarrow> error + (Proto list \<times> bytes)"
where
  "read_proto parent_source f =
     (case read_proto_pre parent_source f of Inl e \<Rightarrow> Inl e | Inr (p, f1) \<Rightarrow>
      (case read_size_with_raw f1 of Inl e \<Rightarrow> Inl e | Inr ((n, n_raw), f2) \<Rightarrow>
       (case read_protos_loop n (source p) [] f2 of Inl e \<Rightarrow> Inl e | Inr (subs, f3) \<Rightarrow>
        (case read_debug (p\<lparr>ori := AList.update ''protos'' n_raw (ori p)\<rparr>) f3 of
           Inl e \<Rightarrow> Inl e
         | Inr (p', f4) \<Rightarrow> Inr (Proto p' subs, f4)))))"
| "read_protos_loop 0 src subs f = Inr (subs, f)"
| "read_protos_loop (Suc n) src subs f =
     (case read_proto src f of
        Inl e \<Rightarrow> Inl e
      | Inr (subproto, f') \<Rightarrow> read_protos_loop n src (subs @ [subproto]) f')"
  by pat_completeness auto

lemma read_proto_shorter_dom:
  "read_proto_read_protos_loop_dom (Inl (ps, f)) \<Longrightarrow>
     read_proto ps f = Inr (p, f') \<Longrightarrow> length f' < length f"
  "read_proto_read_protos_loop_dom (Inr (n, src, subs, f)) \<Longrightarrow>
     read_protos_loop n src subs f = Inr (r, f') \<Longrightarrow> length f' \<le> length f"
proof (induction ps f and n src subs f arbitrary: p f' and r f'
       rule: read_proto_read_protos_loop.pinduct)
  case (1 parent_source f)
  from "1.prems" "1.hyps" obtain p0 f1 n n_raw f2 subs f3 p1 where
    a: "read_proto_pre parent_source f = Inr (p0, f1)"
    and b: "read_size_with_raw f1 = Inr ((n, n_raw), f2)"
    and c: "read_protos_loop n (source p0) [] f2 = Inr (subs, f3)"
    and d: "read_debug (p0\<lparr>ori := AList.update ''protos'' n_raw (ori p0)\<rparr>) f3 = Inr (p1, f')"
    by (auto simp: read_proto.psimps split: sum.splits)
  have "length f3 \<le> length f2"
    using "1.IH" [OF a refl b refl refl c] .
  then show ?case
    using read_proto_pre_shorter [OF a] read_size_with_raw_shorter [OF b] read_debug_le [OF d]
    by linarith
next
  case (2 src subs f)
  then show ?case by (simp add: read_protos_loop.psimps)
next
  case (3 n src subs f)
  from "3.prems" "3.hyps" obtain sub f1 where
    a: "read_proto src f = Inr (sub, f1)"
    and b: "read_protos_loop n src (subs @ [sub]) f1 = Inr (r, f')"
    by (auto simp: read_protos_loop.psimps split: sum.splits)
  have "length f1 < length f" using a by (rule "3.IH"(1))
  moreover have "length f' \<le> length f1" using "3.IH"(2) [OF a refl b] .
  ultimately show ?case by simp
qed

termination read_proto
proof (relation "measure (\<lambda>x. case x of Inl (ps, f) \<Rightarrow> 2 * length f
                                     | Inr (n, src, subs, f) \<Rightarrow> 2 * length f + 1)")
  show "wf (measure (\<lambda>x. case x of Inl (ps, f) \<Rightarrow> 2 * length f
                                     | Inr (n, src, subs, f) \<Rightarrow> 2 * length f + 1))"
    by simp
next
  fix parent_source :: "pystr option" and f :: bytes and b x y ba xa ya xb yb
  assume "read_proto_pre parent_source f = Inr b" "(x, y) = b"
    "read_size_with_raw y = Inr ba" "(xa, ya) = ba" "(xb, yb) = xa"
  then have "length y < length f" "length ya < length y"
    using read_proto_pre_shorter [of parent_source f x y] read_size_with_raw_shorter [of y xa ya]
    by auto
  then show "(Inr (xb, source x, [], ya), Inl (parent_source, f))
        \<in> measure (\<lambda>x. case x of Inl (ps, f) \<Rightarrow> 2 * length f
                                     | Inr (n, src, subs, f) \<Rightarrow> 2 * length f + 1)"
    by simp
next
  fix n :: nat and src :: "pystr option" and subs :: "Proto list" and f :: bytes
  show "(Inl (src, f), Inr (Suc n, src, subs, f))
        \<in> measure (\<lambda>x. case x of Inl (ps, f) \<Rightarrow> 2 * length f
                                     | Inr (n, src, subs, f) \<Rightarrow> 2 * length f + 1)"
    by simp
next
  fix n :: nat and src :: "pystr option" and subs :: "Proto list" and f :: bytes and b x y
  assume "read_proto src f = Inr b" "(x, y) = b"
    "read_proto_read_protos_loop_dom (Inl (src, f))"
  then have "length y < length f"
    using read_proto_shorter_dom(1) [of src f x y] by auto
  then show "(Inr (n, src, subs @ [x], y), Inr (Suc n, src, subs, f))
        \<in> measure (\<lambda>x. case x of Inl (ps, f) \<Rightarrow> 2 * length f
                                     | Inr (n, src, subs, f) \<Rightarrow> 2 * length f + 1)"
    by simp
qed

declare read_proto.simps [simp del]

text \<open>\<open>parse\<close>: the header, the upvalue count of the main function (read and dropped),
  then the main prototype with the empty string as parent source.  Bytes after the main
  prototype are not looked at.\<close>

definition parse :: "bytes \<Rightarrow> error + Proto" where
  "parse file =
     (case check_header file of Inl e \<Rightarrow> Inl e | Inr f1 \<Rightarrow>
      (case read_byte f1 of Inl e \<Rightarrow> Inl e | Inr (upval_count, f2) \<Rightarrow>
       (case read_proto (Some []) f2 of Inl e \<Rightarrow> Inl e | Inr (main_proto, f3) \<Rightarrow>
          Inr main_proto)))"

section \<open>Lua 5.4: instruction decoding and opcode comparison\<close>

datatype OpMode = iABC | iABx | iAsBx | iAx | isJ

text \<open>The dictionary \<open>OPCODE_INFO\<close>: its keys are the members of \<open>OpCode\<close>, which are the
  integers 0 to 82.\<close>

definition OPCODE_INFO_items :: "(nat \<times> (string \<times> OpMode)) list" where
  "OPCODE_INFO_items =
     [(0, (''MOVE'', iABC)), (1, (''LOADI'', iAsBx)), (2, (''LOADF'', iAsBx)),
      (3, (''LOADK'', iABx)), (4, (''LOADKX'', iABx)), (5, (''LOADFALSE'', iABC)),
      (6, (''LFALSESKIP'', iABC)), (7, (''LOADTRUE'', iABC)), (8, (''LOADNIL'', iABC)),
      (9, (''GETUPVAL'', iABC)), (10, (''SETUPVAL'', iABC)), (11, (''GETTABUP'', iABC)),
      (12, (''GETTABLE'', iABC)), (13, (''GETI'', iABC)), (14, (''GETFIELD'', iABC)),
      (15, (''SETTABUP'', iABC)), (16, (''SETTABLE'', iABC)), (17, (''SETI'', iABC)),
      (18, (''SETFIELD'', iABC)), (19, (''NEWTABLE'', iABC)), (20, (''SELF'', iABC)),
      (21, (''ADDI'', iABC)), (22, (''ADDK'', iABC)), (23, (''SUBK'', iABC)),
      (24, (''MULK'', iABC)), (25, (''MODK'', iABC)), (26, (''POWK'', iABC)),
      (27, (''DIVK'', iABC)), (28, (''IDIVK'', iABC)), (29, (''BANDK'', iABC)),
      (30, (''BORK'', iABC)), (31, (''BXORK'', iABC)), (32, (''SHRI'', iABC)),
      (33, (''SHLI'', iABC)), (34, (''ADD'', iABC)), (35, (''SUB'', iABC)),
      (36, (''MUL'', iABC)), (37, (''MOD'', iABC)), (38, (''POW'', iABC)),
      (39, (''DIV'', iABC)), (40, (''IDIV'', iABC)), (41, (''BAND'', iABC)),
      (42, (''BOR'', iABC)), (43, (''BXOR'', iABC)), (44, (''SHL'', iABC)),
      (45, (''SHR'', iABC)), (46, (''MMBIN'', iABC)), (47, (''MMBINI'', iABC)),
      (48, (''MMBINK'', iABC)), (49, (''UNM'', iABC)), (50, (''BNOT'', iABC)),
      (51, (''NOT'', iABC)), (52, (''LEN'', iABC)), (53, (''CONCAT'', iABC)),
      (54, (''CLOSE'', iABC)), (55, (''TBC'', iABC)), (56, (''JMP'', isJ)),
      (57, (''EQ'', iABC)), (58, (''LT'', iABC)), (59, (''LE'', iABC)), (60, (''EQK'', iABC)),
      (61, (''EQI'', iABC)), (62, (''LTI'', iABC)), (63, (''LEI'', iABC)),
      (64, (''GTI'', iABC)), (65, (''GEI'', iABC)), (66, (''TEST'', iABC)),
      (67, (''TESTSET'', iABC)), (68, (''CALL'', iABC)), (69, (''TAILCALL'', iABC)),
      (70, (''RETURN'', iABC)), (71, (''RETURN0'', iABC)), (72, (''RETURN1'', iABC)),
      (73, (''FORLOOP'', iAsBx)), (74, (''FORPREP'', iAsBx)), (75, (''TFORPREP'', iAsBx)),
      (76, (''TFORCALL'', iABC)), (77, (''TFORLOOP'', iAsBx)), (78, (''SETLIST'', iABC)),
      (79, (''CLOSURE'', iABx)), (80, (''VARARG'', iABC)), (81, (''VARARGPREP'', iABC)),
      (82, (''EXTRAARG'', iAx))]"

definition OPCODE_INFO :: "nat \<Rightarrow> (string \<times> OpMode) option" where
  "OPCODE_INFO = map_of OPCODE_INFO_items"

text \<open>
  The dictionary that \<open>decode_instruction\<close> returns: the keys \<open>raw\<close>, \<open>opcode\<close> and
  \<open>name\<close> are always there; \<open>mode\<close> and the operand fields only for a known opcode.
  The operand fields are kept as the list of their keys and values, in the order the source
  stores them.
\<close>

record decoded_instruction =
  raw :: nat
  opcode :: nat
  name :: string
  mode :: "OpMode option"
  operands :: "(string \<times> int) list"

definition decode_instruction :: "nat \<Rightarrow> decoded_instruction" where
  "decode_instruction inst =
     (let opcode' = inst AND 0x7F;
          result = \<lparr>raw = inst, opcode = opcode', name = ''UNKNOWN'', mode = None,
                    operands = []\<rparr>
      in case OPCODE_INFO opcode' of
           None \<Rightarrow> result
         | Some (name', mode') \<Rightarrow>
             result\<lparr>name := name', mode := Some mode',
               operands :=
                 (case mode' of
                    iABC \<Rightarrow> [(''A'', int (drop_bit 7 inst AND 0xFF)),
                             (''B'', int (drop_bit 16 inst AND 0xFF)),
                             (''k'', int (drop_bit 15 inst AND 0x1)),
                             (''C'', int (drop_bit 24 inst AND 0xFF))]
                  | iABx \<Rightarrow> [(''A'', int (drop_bit 7 inst AND 0xFF)),
                             (''Bx'', int (drop_bit 15 inst AND 0x1FFFF))]
                  | iAsBx \<Rightarrow> [(''A'', int (drop_bit 7 inst AND 0xFF)),
                              (''sBx'', int (drop_bit 15 inst AND 0x1FFFF) - 0xFFFF)]
                  | iAx \<Rightarrow> [(''Ax'', int (drop_bit 7 inst AND 0x1FFFFFF))]
                  | isJ \<Rightarrow> [(''sJ'', int (drop_bit 7 inst AND 0x1FFFFFF) - 0xFFFFFF)])\<rparr>)"

subsection \<open>\<open>compare_opcodes\<close>\<close>

text \<open>\<open>_extract_all_instructions\<close>: the prototype's own instructions, then those of each
  child in order, recursively.\<close>

fun extract_all_instructions :: "Proto \<Rightarrow> nat list"
  and extract_from_protos :: "Proto list \<Rightarrow> nat list"
where
  "extract_all_instructions (Proto p subs) = code p @ extract_from_protos subs"
| "extract_from_protos [] = []"
| "extract_from_protos (sub_proto # rest) =
     extract_all_instructions sub_proto @ extract_from_protos rest"

text \<open>
  \<open>_analyze_opcode_mapping\<close>: the loop over \<open>zip(standard_instructions,
  shuffled_instructions)\<close>.  The state is the dictionary \<open>opcode_mapping\<close> and the warnings
  printed so far; a warning is the triple (standard opcode, recorded opcode, conflicting
  opcode).  An opcode already in the dictionary is never written again.
\<close>

fun analyze_loop ::
  "(nat \<times> nat) list \<Rightarrow> (nat \<times> nat) list \<Rightarrow> (nat \<times> nat \<times> nat) list
     \<Rightarrow> (nat \<times> nat) list \<times> (nat \<times> nat \<times> nat) list" where
  "analyze_loop [] opcode_mapping warnings = (opcode_mapping, warnings)"
| "analyze_loop ((std_inst, shuf_inst) # rest) opcode_mapping warnings =
     (let std_opcode = opcode (decode_instruction std_inst);
          shuf_opcode = opcode (decode_instruction shuf_inst)
      in case map_of opcode_mapping std_opcode of
           Some recorded \<Rightarrow>
             (if recorded \<noteq> shuf_opcode
              then analyze_loop rest opcode_mapping
                     (warnings @ [(std_opcode, recorded, shuf_opcode)])
              else analyze_loop rest opcode_mapping warnings)
         | None \<Rightarrow>
             analyze_loop rest (AList.update std_opcode shuf_opcode opcode_mapping) warnings)"

definition analyze_opcode_mapping ::
  "nat list \<Rightarrow> nat list \<Rightarrow> (nat \<times> nat) list \<times> (nat \<times> nat \<times> nat) list" where
  "analyze_opcode_mapping standard_instructions shuffled_instructions =
     analyze_loop (zip standard_instructions shuffled_instructions) [] []"

text \<open>
  \<open>compare_opcodes\<close> takes two file names; here it takes the contents of the two files.
  Both are parsed, the instruction lists are compared by length, and the mapping is derived.
  The result carries the dictionary and the warnings printed on the way.
\<close>

definition compare_opcodes ::
  "bytes \<Rightarrow> bytes \<Rightarrow> error + ((nat \<times> nat) list \<times> (nat \<times> nat \<times> nat) list)" where
  "compare_opcodes standard_file shuffled_file =
     (case parse standard_file of Inl e \<Rightarrow> Inl e | Inr standard_proto \<Rightarrow>
      (case parse shuffled_file of Inl e \<Rightarrow> Inl e | Inr shuffled_proto \<Rightarrow>
       (let standard_instructions = extract_all_instructions standard_proto;
            shuffled_instructions = extract_all_instructions shuffled_proto
        in if length standard_instructions \<noteq> length shuffled_instructions
           then Inl InstructionCountMismatch
           else Inr (analyze_opcode_mapping standard_instructions shuffled_instructions))))"

section \<open>Lua 5.4: the instruction-stream cipher\<close>

text \<open>The two attributes of the parser object that the cipher reads.  The constructor sets
  no key and switches the mode off; \<open>set_encryption_key\<close> stores the key and switches it on.\<close>

record cipher_state =
  encryption_key :: "bytes option"
  encrypt_mode :: bool

definition init_cipher_state :: cipher_state where
  "init_cipher_state = \<lparr>encryption_key = None, encrypt_mode = False\<rparr>"

definition set_encryption_key :: "cipher_state \<Rightarrow> bytes \<Rightarrow> cipher_state" where
  "set_encryption_key st key = st\<lparr>encryption_key := Some key, encrypt_mode := True\<rparr>"

text \<open>Python's \<open>not self.encryption_key\<close>: true for \<open>None\<close> and for the empty byte string.\<close>

definition key_falsy :: "bytes option \<Rightarrow> bool" where
  "key_falsy k = (case k of None \<Rightarrow> True | Some key \<Rightarrow> key = [])"

text \<open>
  The inner loop over \<open>byte_idx in range(4)\<close> for one 4-byte group starting at \<open>inst_idx\<close>
  (it breaks at the end of the data), and the outer loop over
  \<open>inst_idx in range(0, len(code_data), 4)\<close>.  Each byte is XORed with the key byte at its
  offset modulo the key length; the adjustment of the first byte of a group is commented
  out in the source.  \<open>encrypt_code_data\<close> and \<open>decrypt_code_data\<close> have the same loops.
\<close>

fun xor_group :: "bytes \<Rightarrow> bytes \<Rightarrow> nat \<Rightarrow> nat list \<Rightarrow> bytes" where
  "xor_group key code_data inst_idx [] = []"
| "xor_group key code_data inst_idx (byte_idx # rest) =
     (if inst_idx + byte_idx \<ge> length code_data then []
      else (code_data ! (inst_idx + byte_idx) XOR key ! ((inst_idx + byte_idx) mod length key))
             # xor_group key code_data inst_idx rest)"

function xor_groups :: "bytes \<Rightarrow> bytes \<Rightarrow> nat \<Rightarrow> bytes" where
  "xor_groups key code_data inst_idx =
     (if inst_idx < length code_data
      then xor_group key code_data inst_idx [0, 1, 2, 3] @ xor_groups key code_data (inst_idx + 4)
      else [])"
  by pat_completeness auto
termination
  by (relation "measure (\<lambda>(key, code_data, inst_idx). length code_data - inst_idx)") auto

declare xor_groups.simps [simp del]

definition encrypt_code_data :: "cipher_state \<Rightarrow> bytes \<Rightarrow> error + bytes" where
  "encrypt_code_data st code_data =
     (case encryption_key st of
        None \<Rightarrow> Inl KeyNotSet
      | Some key \<Rightarrow> if length key = 0 then Inl KeyNotSet else Inr (xor_groups key code_data 0))"

definition decrypt_code_data :: "cipher_state \<Rightarrow> bytes \<Rightarrow> error + bytes" where
  "decrypt_code_data st encrypted_data =
     (case encryption_key st of
        None \<Rightarrow> Inl KeyNotSet
      | Some key \<Rightarrow> if length key = 0 then Inl KeyNotSet else Inr (xor_groups key encrypted_data 0))"

text \<open>The scan that separates the size prefix of a raw instruction group from the
  instruction bytes: bytes are taken up to and including the first one with the top bit.\<close>

fun split_size_bytes :: "bytes \<Rightarrow> bytes \<Rightarrow> bytes \<times> bytes" where
  "split_size_bytes size_bytes [] = (size_bytes, [])"
| "split_size_bytes size_bytes (byte # rest) =
     (let size_bytes' = size_bytes @ [byte]
      in if unat byte AND 0x80 \<noteq> 0 then (size_bytes', rest)
         else split_size_bytes size_bytes' rest)"

text \<open>
  \<open>encrypt_proto_code\<close> and \<open>decrypt_proto_code\<close> change \<open>proto.ori['code']\<close> in place and
  recurse into the children; here they return the changed tree.  Both return at once,
  without an error, when the mode is off or the key is \<open>None\<close> or empty.
\<close>

fun encrypt_proto_code :: "cipher_state \<Rightarrow> Proto \<Rightarrow> error + Proto"
  and encrypt_sub_protos :: "cipher_state \<Rightarrow> Proto list \<Rightarrow> error + Proto list"
where
  "encrypt_proto_code st (Proto p subs) =
     (if \<not> encrypt_mode st \<or> key_falsy (encryption_key st) then Inr (Proto p subs)
      else
        (case (if ori p \<noteq> [] \<and> map_of (ori p) ''code'' \<noteq> None
               then (case split_size_bytes [] (the (map_of (ori p) ''code'')) of
                       (size_bytes, actual_code_data) \<Rightarrow>
                         (case encrypt_code_data st actual_code_data of
                            Inl e \<Rightarrow> Inl e
                          | Inr encrypted_code \<Rightarrow>
                              Inr (p\<lparr>ori := AList.update ''code'' (size_bytes @ encrypted_code)
                                              (ori p)\<rparr>)))
               else Inr p) of
           Inl e \<Rightarrow> Inl e
         | Inr p' \<Rightarrow>
             (case encrypt_sub_protos st subs of
                Inl e \<Rightarrow> Inl e
              | Inr subs' \<Rightarrow> Inr (Proto p' subs'))))"
| "encrypt_sub_protos st [] = Inr []"
| "encrypt_sub_protos st (sub_proto # rest) =
     (case encrypt_proto_code st sub_proto of
        Inl e \<Rightarrow> Inl e
      | Inr sub_proto' \<Rightarrow>
          (case encrypt_sub_protos st rest of
             Inl e \<Rightarrow> Inl e
           | Inr rest' \<Rightarrow> Inr (sub_proto' # rest')))"

fun decrypt_proto_code :: "cipher_state \<Rightarrow> Proto \<Rightarrow> error + Proto"
  and decrypt_sub_protos :: "cipher_state \<Rightarrow> Proto list \<Rightarrow> error + Proto list"
where
  "decrypt_proto_code st (Proto p subs) =
     (if \<not> encrypt_mode st \<or> key_falsy (encryption_key st) then Inr (Proto p subs)
      else
        (case (if ori p \<noteq> [] \<and> map_of (ori p) ''code'' \<noteq> None
               then (case split_size_bytes [] (the (map_of (ori p) ''code'')) of
                       (size_bytes, encrypted_code_data) \<Rightarrow>
                         (case decrypt_code_data st encrypted_code_data of
                            Inl e \<Rightarrow> Inl e
                          | Inr decrypted_code \<Rightarrow>
                              Inr (p\<lparr>ori := AList.update ''code'' (size_bytes @ decrypted_code)
                                              (ori p)\<rparr>)))
               else Inr p) of
           Inl e \<Rightarrow> Inl e
         | Inr p' \<Rightarrow>
             (case decrypt_sub_protos st subs of
                Inl e \<Rightarrow> Inl e
              | Inr subs' \<Rightarrow> Inr (Proto p' subs'))))"
| "decrypt_sub_protos st [] = Inr []"
| "decrypt_sub_protos st (sub_proto # rest) =
     (case decrypt_proto_code st sub_proto of
        Inl e \<Rightarrow> Inl e
      | Inr sub_proto' \<Rightarrow>
          (case decrypt_sub_protos st rest of
             Inl e \<Rightarrow> Inl e
           | Inr rest' \<Rightarrow> Inr (sub_proto' # rest')))"

section \<open>Lua 5.4: the writer\<close>

text \<open>
  The writer appends to an output file.  Each writing function is modelled by the bytes
  it appends; an exception raised on the way (\<open>struct.error\<close> from \<open>struct.pack\<close>,
  \<open>UnicodeEncodeError\<close> from \<open>str.encode\<close>) ends the whole call.  \<open>seq_w\<close> runs one write
  after another.
\<close>

definition seq_w :: "error + bytes \<Rightarrow> error + bytes \<Rightarrow> error + bytes" where
  "seq_w a b =
     (case a of Inl e \<Rightarrow> Inl e | Inr x \<Rightarrow> (case b of Inl e \<Rightarrow> Inl e | Inr y \<Rightarrow> Inr (x @ y)))"

text \<open>A \<open>for\<close> loop that writes every element of a list.\<close>

fun write_each :: "('a \<Rightarrow> error + bytes) \<Rightarrow> 'a list \<Rightarrow> error + bytes" where
  "write_each w [] = Inr []"
| "write_each w (x # xs) = seq_w (w x) (write_each w xs)"

definition write_header :: "error + bytes" where
  "write_header =
     seq_w (Inr LUA_SIGNATURE)
    (seq_w (pack_B LUAC_VERSION)
    (seq_w (pack_B LUAC_FORMAT)
    (seq_w (Inr LUAC_DATA)
    (seq_w (pack_B 4)
    (seq_w (pack_B 8)
    (seq_w (pack_B 8)
    (seq_w (pack_q LUAC_INT)
           (Inr (pack_d LUAC_NUM)))))))))"

definition write_string :: "pystr option \<Rightarrow> error + bytes" where
  "write_string s =
     (case s of
        None \<Rightarrow> Inr (write_size 0)
      | Some str \<Rightarrow>
          (case encode_utf8 str of
             Inl e \<Rightarrow> Inl e
           | Inr data \<Rightarrow> Inr (write_size (length data + 1) @ data)))"

text \<open>One pass of the loop of \<open>_write_constants\<close>.  A string takes the short tag when
  \<open>len(const) <= 40\<close>, which counts code points.\<close>

definition write_constant :: "lua_const \<Rightarrow> error + bytes" where
  "write_constant const =
     (case const of
        PyNone \<Rightarrow> pack_B VNIL
      | PyBool b \<Rightarrow> (if \<not> b then pack_B VFALSE else pack_B VTRUE)
      | PyFloat x \<Rightarrow> seq_w (pack_B VNUMFLT) (Inr (pack_d x))
      | PyInt i \<Rightarrow> seq_w (pack_B VNUMINT) (pack_q i)
      | PyStr s \<Rightarrow>
          seq_w (if length s \<le> 40 then pack_B VSHRSTR else pack_B VLNGSTR)
                (write_string (Some s)))"

definition write_constants :: "proto_fields \<Rightarrow> error + bytes" where
  "write_constants proto =
     seq_w (Inr (write_size (length (constants proto))))
           (write_each write_constant (constants proto))"

definition write_upvalue :: "Upvalue \<Rightarrow> error + bytes" where
  "write_upvalue upval =
     seq_w (pack_B (instack upval)) (seq_w (pack_B (idx upval)) (pack_B (kind upval)))"

definition write_upvalues :: "proto_fields \<Rightarrow> error + bytes" where
  "write_upvalues proto =
     seq_w (Inr (write_size (length (upvalues proto))))
           (write_each write_upvalue (upvalues proto))"

definition write_absline :: "AbsLineInfo \<Rightarrow> error + bytes" where
  "write_absline absline = Inr (write_size (pc absline) @ write_size (line absline))"

definition write_locvar :: "LocVar \<Rightarrow> error + bytes" where
  "write_locvar locvar =
     seq_w (write_string (varname locvar))
           (Inr (write_size (startpc locvar) @ write_size (endpc locvar)))"

definition write_debug :: "proto_fields \<Rightarrow> error + bytes" where
  "write_debug proto =
     seq_w (Inr (write_size (length (lineinfo proto))))
    (seq_w (write_each pack_B (lineinfo proto))
    (seq_w (Inr (write_size (length (abslineinfo proto))))
    (seq_w (write_each write_absline (abslineinfo proto))
    (seq_w (Inr (write_size (length (locvars proto))))
    (seq_w (write_each write_locvar (locvars proto))
    (seq_w (Inr (write_size (length (upvalue_names proto))))
           (write_each write_string (upvalue_names proto))))))))"

text \<open>The source name as \<open>_write_proto\<close> writes it: the main prototype writes its
  \<open>source\<close>; a child writes the absent string when its captured raw source is at most one
  byte long or when it has no captured raw source, and its \<open>source\<close> otherwise.\<close>

definition write_source :: "bool \<Rightarrow> proto_fields \<Rightarrow> error + bytes" where
  "write_source is_main_proto proto =
     (if is_main_proto then write_string (source proto)
      else if ori proto \<noteq> [] \<and> map_of (ori proto) ''source'' \<noteq> None
           then (let source_raw = the (map_of (ori proto) ''source'')
                 in if length source_raw \<le> 1 then write_string None
                    else write_string (source proto))
           else write_string None)"

text \<open>The instruction stream: the captured raw bytes when there are any, otherwise the
  count and the instructions.\<close>

definition write_code :: "proto_fields \<Rightarrow> error + bytes" where
  "write_code proto =
     (if ori proto \<noteq> [] \<and> map_of (ori proto) ''code'' \<noteq> None
      then Inr (the (map_of (ori proto) ''code''))
      else seq_w (Inr (write_size (length (code proto)))) (write_each pack_I (code proto)))"

text \<open>The part of \<open>_write_proto\<close> before the children.\<close>

definition write_proto_pre :: "bool \<Rightarrow> proto_fields \<Rightarrow> error + bytes" where
  "write_proto_pre is_main_proto proto =
     seq_w (write_source is_main_proto proto)
    (seq_w (Inr (write_size (linedefined proto)))
    (seq_w (Inr (write_size (lastlinedefined proto)))
    (seq_w (pack_B (numparams proto))
    (seq_w (pack_B (is_vararg proto))
    (seq_w (pack_B (maxstacksize proto))
    (seq_w (write_code proto)
    (seq_w (write_constants proto)
           (write_upvalues proto))))))))"

fun write_proto :: "Proto \<Rightarrow> bool \<Rightarrow> error + bytes"
  and write_sub_protos :: "Proto list \<Rightarrow> error + bytes"
where
  "write_proto (Proto p subs) is_main_proto =
     seq_w (write_proto_pre is_main_proto p)
    (seq_w (Inr (write_size (length subs)))
    (seq_w (write_sub_protos subs)
           (write_debug p)))"
| "write_sub_protos [] = Inr []"
| "write_sub_protos (sub_proto # rest) =
     seq_w (write_proto sub_proto False) (write_sub_protos rest)"

definition write_luac_file :: "Proto \<Rightarrow> error + bytes" where
  "write_luac_file main_proto =
     seq_w write_header
    (seq_w (pack_B (length (upvalues (fields_of main_proto))))
           (write_proto main_proto True))"

section \<open>LuaJIT: the reader\<close>

text \<open>
  \<open>luajitparse.py\<close>.  The cursor \<open>data[pos:]\<close> is the unread suffix, as for the two
  varint readers above.  Every \<open>raise Exception\<close> of the bounds checks is \<open>OutOfBounds\<close>.
  The names that the Lua 5.4 reader already uses carry the suffix \<open>_jit\<close>.
\<close>

definition LUAJIT_SIGNATURE :: bytes where "LUAJIT_SIGNATURE = [0x1B, 0x4C, 0x4A]"
definition LUAJIT_VERSION :: nat where "LUAJIT_VERSION = 1"
definition BCDUMP_F_BE :: nat where "BCDUMP_F_BE = 0x01"
definition BCDUMP_F_STRIP :: nat where "BCDUMP_F_STRIP = 0x02"
definition BCDUMP_F_FFI :: nat where "BCDUMP_F_FFI = 0x04"
definition BCDUMP_KGC_CHILD :: nat where "BCDUMP_KGC_CHILD = 0"
definition BCDUMP_KGC_TAB :: nat where "BCDUMP_KGC_TAB = 1"
definition BCDUMP_KGC_I64 :: nat where "BCDUMP_KGC_I64 = 2"
definition BCDUMP_KGC_U64 :: nat where "BCDUMP_KGC_U64 = 3"
definition BCDUMP_KGC_COMPLEX :: nat where "BCDUMP_KGC_COMPLEX = 4"
definition BCDUMP_KGC_STR :: nat where "BCDUMP_KGC_STR = 5"
definition BCDUMP_KTAB_NIL :: nat where "BCDUMP_KTAB_NIL = 0"
definition BCDUMP_KTAB_FALSE :: nat where "BCDUMP_KTAB_FALSE = 1"
definition BCDUMP_KTAB_TRUE :: nat where "BCDUMP_KTAB_TRUE = 2"
definition BCDUMP_KTAB_INT :: nat where "BCDUMP_KTAB_INT = 3"
definition BCDUMP_KTAB_NUM :: nat where "BCDUMP_KTAB_NUM = 4"
definition BCDUMP_KTAB_STR :: nat where "BCDUMP_KTAB_STR = 5"
definition VARNAME_END :: nat where "VARNAME_END = 0"
definition VARNAME_MAX :: nat where "VARNAME_MAX = 7"

subsection \<open>Fixed-width reads and strings\<close>

definition read_byte_jit :: "bytes \<Rightarrow> error + (nat \<times> bytes)" where
  "read_byte_jit s = (case s of [] \<Rightarrow> Inl OutOfBounds | b # s' \<Rightarrow> Inr (unat b, s'))"

definition read_uint16 :: "bytes \<Rightarrow> error + (nat \<times> bytes)" where
  "read_uint16 s = (if length s < 2 then Inl OutOfBounds else Inr (le_nat (take 2 s), drop 2 s))"

definition read_uint32 :: "bytes \<Rightarrow> error + (nat \<times> bytes)" where
  "read_uint32 s = (if length s < 4 then Inl OutOfBounds else Inr (le_nat (take 4 s), drop 4 s))"

text \<open>\<open>bytes.decode('utf-8')\<close> without an error handler: the decoded string, or nothing when
  the input has an ill-formed part.\<close>

fun utf8_decode_strict :: "nat list \<Rightarrow> pystr option" where
  "utf8_decode_strict [] = Some []"
| "utf8_decode_strict (b0 # rest) =
     (if b0 < 0x80 then map_option ((#) b0) (utf8_decode_strict rest)
      else if b0 < 0xC2 \<or> b0 > 0xF4 then None
      else (case rest of
              [] \<Rightarrow> None
            | b1 # r1 \<Rightarrow>
               (if b0 < 0xE0
                then (if is_cont b1
                      then map_option ((#) ((b0 - 0xC0) * 64 + (b1 - 0x80)))
                             (utf8_decode_strict r1)
                      else None)
                else if \<not> second_ok b0 b1 then None
                else (case r1 of
                        [] \<Rightarrow> None
                      | b2 # r2 \<Rightarrow>
                         (if b0 < 0xF0
                          then (if is_cont b2
                                then map_option
                                       ((#) ((b0 - 0xE0) * 4096 + (b1 - 0x80) * 64 + (b2 - 0x80)))
                                       (utf8_decode_strict r2)
                                else None)
                          else if \<not> is_cont b2 then None
                          else (case r2 of
                                  [] \<Rightarrow> None
                                | b3 # r3 \<Rightarrow>
                                   (if is_cont b3
                                    then map_option
                                           ((#) ((b0 - 0xF0) * 262144 + (b1 - 0x80) * 4096
                                                  + (b2 - 0x80) * 64 + (b3 - 0x80)))
                                           (utf8_decode_strict r3)
                                    else None)))))))"

text \<open>\<open>read_string(length)\<close>: the bytes decoded as UTF-8, or as Latin-1 (one code point for
  each byte) when they are not UTF-8.\<close>

definition read_string_jit :: "nat \<Rightarrow> bytes \<Rightarrow> error + (pystr \<times> bytes)" where
  "read_string_jit length' s =
     (if length s < length' then Inl OutOfBounds
      else (let data = take length' s
            in Inr (case utf8_decode_strict (map unat data) of
                      Some str \<Rightarrow> str
                    | None \<Rightarrow> map unat data,
                    drop length' s)))"

subsection \<open>\<open>read_header\<close>\<close>

record header_info =
  signature :: string
  version :: nat
  flags :: nat
  is_big_endian :: bool
  is_stripped :: bool
  has_ffi :: bool
  source_name :: pystr

text \<open>A version other than \<open>LUAJIT_VERSION\<close> only prints a warning.  The signature kept
  in the dictionary is \<open>signature.hex()\<close>, which is \<open>1b4c4a\<close> whenever the check passes.\<close>

definition read_header :: "bytes \<Rightarrow> error + (header_info \<times> bytes)" where
  "read_header s =
     (if length s < 3 then Inl OutOfBounds
      else if take 3 s \<noteq> LUAJIT_SIGNATURE then Inl BadJitSignature
      else (case read_byte_jit (drop 3 s) of Inl e \<Rightarrow> Inl e | Inr (version', s1) \<Rightarrow>
        (case read_uleb128 s1 of Inl e \<Rightarrow> Inl e | Inr (flags', s2) \<Rightarrow>
          (let is_big_endian' = (flags' AND BCDUMP_F_BE \<noteq> 0);
               is_stripped' = (flags' AND BCDUMP_F_STRIP \<noteq> 0);
               has_ffi' = (flags' AND BCDUMP_F_FFI \<noteq> 0)
           in (case (if \<not> is_stripped'
                     then (case read_uleb128 s2 of Inl e \<Rightarrow> Inl e | Inr (name_len, s3) \<Rightarrow>
                             if name_len > 0 then read_string_jit name_len s3 else Inr ([], s3))
                     else Inr ([], s2)) of
                 Inl e \<Rightarrow> Inl e
               | Inr (source_name', s4) \<Rightarrow>
                   Inr (\<lparr>signature = ''1b4c4a'', version = version', flags = flags',
                         is_big_endian = is_big_endian', is_stripped = is_stripped',
                         has_ffi = has_ffi', source_name = source_name'\<rparr>, s4))))))"

subsection \<open>Counted loops\<close>

text \<open>\<open>for i in range(n)\<close>: read one item and append it.\<close>

fun loop_jit ::
  "(bytes \<Rightarrow> error + ('a \<times> bytes)) \<Rightarrow> nat \<Rightarrow> 'a list \<Rightarrow> bytes \<Rightarrow> error + ('a list \<times> bytes)"
where
  "loop_jit rd 0 xs s = Inr (xs, s)"
| "loop_jit rd (Suc n) xs s =
     (case rd s of Inl e \<Rightarrow> Inl e | Inr (x, s') \<Rightarrow> loop_jit rd n (xs @ [x]) s')"

subsection \<open>Table constants\<close>

datatype table_item = ItemStr pystr | ItemInt nat | ItemNum "64 word" | ItemBool bool | ItemNone

record table_data =
  array_items :: "table_item list"
  hash_items :: "(table_item \<times> table_item) list"

text \<open>\<open>struct.unpack('<d', struct.pack('<Q', num_bits))\<close>: \<open>struct.pack\<close> raises when
  \<open>num_bits\<close> does not fit 64 bits.  The float is kept as its bit pattern.\<close>

definition double_of_bits :: "nat \<Rightarrow> error + 64 word" where
  "double_of_bits num_bits = (if num_bits < 2 ^ 64 then Inr (of_nat num_bits) else Inl StructError)"

definition read_table_item :: "bytes \<Rightarrow> error + (table_item \<times> bytes)" where
  "read_table_item s =
     (case read_uleb128 s of Inl e \<Rightarrow> Inl e | Inr (item_type, s1) \<Rightarrow>
        if item_type \<ge> BCDUMP_KTAB_STR
        then (case read_string_jit (item_type - BCDUMP_KTAB_STR) s1 of
                Inl e \<Rightarrow> Inl e
              | Inr (str, s2) \<Rightarrow> Inr (ItemStr str, s2))
        else if item_type = BCDUMP_KTAB_INT
        then (case read_uleb128 s1 of Inl e \<Rightarrow> Inl e | Inr (v, s2) \<Rightarrow> Inr (ItemInt v, s2))
        else if item_type = BCDUMP_KTAB_NUM
        then (case read_uleb128 s1 of Inl e \<Rightarrow> Inl e | Inr (lo, s2) \<Rightarrow>
               (case read_uleb128 s2 of Inl e \<Rightarrow> Inl e | Inr (hi, s3) \<Rightarrow>
                 (case double_of_bits (lo OR push_bit 32 hi) of
                    Inl e \<Rightarrow> Inl e
                  | Inr d \<Rightarrow> Inr (ItemNum d, s3))))
        else if item_type = BCDUMP_KTAB_TRUE then Inr (ItemBool True, s1)
        else if item_type = BCDUMP_KTAB_FALSE then Inr (ItemBool False, s1)
        else if item_type = BCDUMP_KTAB_NIL then Inr (ItemNone, s1)
        else Inl (UnknownTableItem item_type))"

definition read_hash_item :: "bytes \<Rightarrow> error + ((table_item \<times> table_item) \<times> bytes)" where
  "read_hash_item s =
     (case read_table_item s of Inl e \<Rightarrow> Inl e | Inr (key, s1) \<Rightarrow>
       (case read_table_item s1 of Inl e \<Rightarrow> Inl e | Inr (val, s2) \<Rightarrow> Inr ((key, val), s2)))"

definition read_table :: "bytes \<Rightarrow> error + (table_data \<times> bytes)" where
  "read_table s =
     (case read_uleb128 s of Inl e \<Rightarrow> Inl e | Inr (array_count, s1) \<Rightarrow>
       (case read_uleb128 s1 of Inl e \<Rightarrow> Inl e | Inr (hash_count, s2) \<Rightarrow>
         (case loop_jit read_table_item array_count [] s2 of Inl e \<Rightarrow> Inl e
          | Inr (array_items', s3) \<Rightarrow>
           (case loop_jit read_hash_item hash_count [] s3 of Inl e \<Rightarrow> Inl e
            | Inr (hash_items', s4) \<Rightarrow>
                Inr (\<lparr>array_items = array_items', hash_items = hash_items'\<rparr>, s4)))))"

subsection \<open>The constants of a prototype\<close>

text \<open>An entry of \<open>constants_gc\<close> is a pair of a kind and a value; the six kinds are the
  constructors.\<close>

datatype gc_constant =
    GCString pystr
  | GCTable table_data
  | GCChildRef
  | GCI64 int
  | GCU64 nat
  | GCComplex "64 word" "64 word"

definition read_gc_constant :: "bytes \<Rightarrow> error + (gc_constant \<times> bytes)" where
  "read_gc_constant s =
     (case read_uleb128 s of Inl e \<Rightarrow> Inl e | Inr (const_type, s1) \<Rightarrow>
        if const_type \<ge> BCDUMP_KGC_STR
        then (case read_string_jit (const_type - BCDUMP_KGC_STR) s1 of
                Inl e \<Rightarrow> Inl e
              | Inr (str_data, s2) \<Rightarrow> Inr (GCString str_data, s2))
        else if const_type = BCDUMP_KGC_TAB
        then (case read_table s1 of Inl e \<Rightarrow> Inl e | Inr (tab, s2) \<Rightarrow> Inr (GCTable tab, s2))
        else if const_type = BCDUMP_KGC_CHILD then Inr (GCChildRef, s1)
        else if const_type = BCDUMP_KGC_I64
        then (case read_uleb128 s1 of Inl e \<Rightarrow> Inl e | Inr (lo, s2) \<Rightarrow>
               (case read_uleb128 s2 of Inl e \<Rightarrow> Inl e | Inr (hi, s3) \<Rightarrow>
                 (let val = lo OR push_bit 32 hi
                  in Inr (GCI64 (if val \<ge> 2 ^ 63 then int val - 2 ^ 64 else int val), s3))))
        else if const_type = BCDUMP_KGC_U64
        then (case read_uleb128 s1 of Inl e \<Rightarrow> Inl e | Inr (lo, s2) \<Rightarrow>
               (case read_uleb128 s2 of Inl e \<Rightarrow> Inl e | Inr (hi, s3) \<Rightarrow>
                  Inr (GCU64 (lo OR push_bit 32 hi), s3)))
        else if const_type = BCDUMP_KGC_COMPLEX
        then (case read_uleb128 s1 of Inl e \<Rightarrow> Inl e | Inr (real_lo, s2) \<Rightarrow>
               (case read_uleb128 s2 of Inl e \<Rightarrow> Inl e | Inr (real_hi, s3) \<Rightarrow>
                 (case read_uleb128 s3 of Inl e \<Rightarrow> Inl e | Inr (imag_lo, s4) \<Rightarrow>
                   (case read_uleb128 s4 of Inl e \<Rightarrow> Inl e | Inr (imag_hi, s5) \<Rightarrow>
                     (case double_of_bits (real_lo OR push_bit 32 real_hi) of
                        Inl e \<Rightarrow> Inl e
                      | Inr real \<Rightarrow>
                         (case double_of_bits (imag_lo OR push_bit 32 imag_hi) of
                            Inl e \<Rightarrow> Inl e
                          | Inr imag \<Rightarrow> Inr (GCComplex real imag, s5)))))))
        else Inl (UnknownGCConstant const_type))"

datatype num_constant = NumFloat "64 word" | NumInt int

definition read_num_constant :: "bytes \<Rightarrow> error + (num_constant \<times> bytes)" where
  "read_num_constant s =
     (case read_uleb128_33 s of Inl e \<Rightarrow> Inl e | Inr (((lo, hi), is_number), s1) \<Rightarrow>
        if is_number
        then (case double_of_bits (lo OR push_bit 32 hi) of
                Inl e \<Rightarrow> Inl e
              | Inr num \<Rightarrow> Inr (NumFloat num, s1))
        else Inr (NumInt (if lo \<ge> 2 ^ 31 then int lo - 2 ^ 32 else int lo), s1))"

subsection \<open>Debug information\<close>

definition read_uvname :: "bytes \<Rightarrow> error + (pystr \<times> bytes)" where
  "read_uvname s =
     (case read_uleb128 s of Inl e \<Rightarrow> Inl e | Inr (name_len, s1) \<Rightarrow>
        if name_len > 0 then read_string_jit name_len s1 else Inr ([], s1))"

text \<open>The name \<open>f"<type_{var_type}>"\<close> of a special variable; \<open>var_type\<close> is one digit
  here.\<close>

definition type_name :: "nat \<Rightarrow> pystr" where
  "type_name var_type = [0x3C, 0x74, 0x79, 0x70, 0x65, 0x5F, 0x30 + var_type, 0x3E]"

text \<open>One pass of the \<open>while\<close> loop over the variable names, after the type byte has been
  read and found different from \<open>VARNAME_END\<close>: the name, then the two scope addresses.\<close>

definition read_varname :: "nat \<Rightarrow> pystr list \<Rightarrow> bytes \<Rightarrow> error + (pystr list \<times> bytes)" where
  "read_varname var_type varnames' s =
     (case (if var_type \<ge> VARNAME_MAX
            then (let name_len = var_type - VARNAME_MAX
                  in if name_len > 0
                     then (case read_string_jit name_len s of
                             Inl e \<Rightarrow> Inl e
                           | Inr (name', s1) \<Rightarrow> Inr (varnames' @ [name'], s1))
                     else Inr (varnames', s))
            else Inr (varnames' @ [type_name var_type], s)) of
        Inl e \<Rightarrow> Inl e
      | Inr (varnames'', s1) \<Rightarrow>
         (case read_uleb128 s1 of Inl e \<Rightarrow> Inl e | Inr (start_addr, s2) \<Rightarrow>
           (case read_uleb128 s2 of Inl e \<Rightarrow> Inl e | Inr (end_addr, s3) \<Rightarrow>
              Inr (varnames'', s3))))"

subsection \<open>Every read moves the cursor forward\<close>




lemma read_uleb128_loop_shorter:
  "read_uleb128_loop r sh s = Inr (x, s') \<Longrightarrow> length s' < length s"
proof (induction s arbitrary: r sh)
  case Nil
  then show ?case by simp
next
  case (Cons b s)
  show ?case
  proof (cases "unat b AND 0x80 = 0")
    case True
    then show ?thesis using Cons.prems by (simp add: Let_def)
  next
    case False
    then have "read_uleb128_loop (r OR push_bit sh (unat b AND 0x7F)) (sh + 7) s = Inr (x, s')"
      using Cons.prems by (simp add: Let_def split: if_splits)
    then have "length s' < length s" by (rule Cons.IH)
    then show ?thesis by simp
  qed
qed

lemma read_uleb128_shorter: "read_uleb128 s = Inr (x, s') \<Longrightarrow> length s' < length s"
  unfolding read_uleb128_def by (rule read_uleb128_loop_shorter)



lemma read_string_jit_le: "read_string_jit n s = Inr (x, s') \<Longrightarrow> length s' \<le> length s"
  by (auto simp: read_string_jit_def Let_def split: if_splits)










lemma read_varname_le:
  "read_varname t names s = Inr (x, s') \<Longrightarrow> length s' \<le> length s"
  unfolding read_varname_def
  by (auto simp: Let_def split: sum.splits if_splits
        dest!: read_uleb128_shorter read_string_jit_le)

text \<open>The \<open>while self.pos < self.size\<close> loop over the variable names: it ends at the end
  of the data or at the type byte \<open>VARNAME_END\<close>.\<close>

function read_varnames :: "pystr list \<Rightarrow> bytes \<Rightarrow> error + (pystr list \<times> bytes)" where
  "read_varnames varnames' [] = Inr (varnames', [])"
| "read_varnames varnames' (b # s) =
     (let var_type = unat b
      in if var_type = VARNAME_END then Inr (varnames', s)
         else (case read_varname var_type varnames' s of
                 Inl e \<Rightarrow> Inl e
               | Inr (varnames'', s') \<Rightarrow> read_varnames varnames'' s'))"
  by pat_completeness auto
termination
proof (relation "measure (\<lambda>(names, s). length s)")
  show "wf (measure (\<lambda>(names, s). length s))" by simp
next
  fix varnames' :: "pystr list" and b :: byte and s :: bytes and x xa y ya
  assume "read_varname x varnames' s = Inr xa" "(y, ya) = xa"
  then have "length ya \<le> length s"
    using read_varname_le [of x varnames' s y ya] by simp
  then show "((y, ya), varnames', b # s) \<in> measure (\<lambda>(names, s). length s)" by simp
qed

declare read_varnames.simps [simp del]

subsection \<open>\<open>read_proto\<close>\<close>

record Proto_jit =
  size_jit :: nat
  flags_jit :: nat
  numparams_jit :: nat
  framesize :: nat
  numuv :: nat
  numkgc :: nat
  numkn :: nat
  numbc :: nat
  debuginfo_size :: nat
  firstline :: nat
  numline :: nat
  bytecode :: "nat list"
  uv_data :: "nat list"
  constants_gc :: "gc_constant list"
  constants_num :: "num_constant list"
  lineinfo_jit :: "nat list"
  uvnames :: "pystr list"
  varnames :: "pystr list"

text \<open>\<open>Proto()\<close>: every field at its default.\<close>

definition new_Proto_jit :: Proto_jit where
  "new_Proto_jit =
     \<lparr>size_jit = 0, flags_jit = 0, numparams_jit = 0, framesize = 0, numuv = 0, numkgc = 0,
      numkn = 0, numbc = 0, debuginfo_size = 0, firstline = 0, numline = 0, bytecode = [],
      uv_data = [], constants_gc = [], constants_num = [], lineinfo_jit = [], uvnames = [],
      varnames = []\<rparr>"

text \<open>The prototype header after the size: four bytes, three counts and, unless the dump
  is stripped, the three debug fields.  \<open>dump_flags\<close> is \<open>self.flags\<close>, which \<open>read_header\<close>
  has set.\<close>

definition read_proto_head :: "nat \<Rightarrow> Proto_jit \<Rightarrow> bytes \<Rightarrow> error + (Proto_jit \<times> bytes)" where
  "read_proto_head dump_flags proto s =
     (case read_byte_jit s of Inl e \<Rightarrow> Inl e | Inr (flags', s1) \<Rightarrow>
      (case read_byte_jit s1 of Inl e \<Rightarrow> Inl e | Inr (numparams', s2) \<Rightarrow>
       (case read_byte_jit s2 of Inl e \<Rightarrow> Inl e | Inr (framesize', s3) \<Rightarrow>
        (case read_byte_jit s3 of Inl e \<Rightarrow> Inl e | Inr (numuv', s4) \<Rightarrow>
         (case read_uleb128 s4 of Inl e \<Rightarrow> Inl e | Inr (numkgc', s5) \<Rightarrow>
          (case read_uleb128 s5 of Inl e \<Rightarrow> Inl e | Inr (numkn', s6) \<Rightarrow>
           (case read_uleb128 s6 of Inl e \<Rightarrow> Inl e | Inr (numbc', s7) \<Rightarrow>
            (let proto1 = proto\<lparr>flags_jit := flags', numparams_jit := numparams',
                                 framesize := framesize', numuv := numuv', numkgc := numkgc',
                                 numkn := numkn', numbc := numbc'\<rparr>
             in if dump_flags AND BCDUMP_F_STRIP = 0
                then (case read_uleb128 s7 of Inl e \<Rightarrow> Inl e | Inr (debuginfo_size', s8) \<Rightarrow>
                      (case read_uleb128 s8 of Inl e \<Rightarrow> Inl e | Inr (firstline', s9) \<Rightarrow>
                       (case read_uleb128 s9 of Inl e \<Rightarrow> Inl e | Inr (numline', s10) \<Rightarrow>
                          Inr (proto1\<lparr>debuginfo_size := debuginfo_size',
                                      firstline := firstline', numline := numline'\<rparr>, s10))))
                else Inr (proto1, s7)))))))))"

text \<open>The instructions, the upvalue data and the two constant lists.\<close>

definition read_proto_data :: "Proto_jit \<Rightarrow> bytes \<Rightarrow> error + (Proto_jit \<times> bytes)" where
  "read_proto_data proto s =
     (case loop_jit read_uint32 (numbc proto) [] s of Inl e \<Rightarrow> Inl e
      | Inr (bytecode', s1) \<Rightarrow>
      (case loop_jit read_uint16 (numuv proto) [] s1 of Inl e \<Rightarrow> Inl e
       | Inr (uv_data', s2) \<Rightarrow>
       (case loop_jit read_gc_constant (numkgc proto) [] s2 of Inl e \<Rightarrow> Inl e
        | Inr (constants_gc', s3) \<Rightarrow>
        (case loop_jit read_num_constant (numkn proto) [] s3 of Inl e \<Rightarrow> Inl e
         | Inr (constants_num', s4) \<Rightarrow>
            Inr (proto\<lparr>bytecode := bytecode', uv_data := uv_data',
                        constants_gc := constants_gc', constants_num := constants_num'\<rparr>,
                 s4)))))"

text \<open>The debug information: present when the dump is not stripped and the prototype
  announces a debug size.  The width of a line entry follows \<open>numline\<close>.\<close>

definition read_proto_debug :: "nat \<Rightarrow> Proto_jit \<Rightarrow> bytes \<Rightarrow> error + (Proto_jit \<times> bytes)" where
  "read_proto_debug dump_flags proto s =
     (if dump_flags AND BCDUMP_F_STRIP = 0 \<and> debuginfo_size proto > 0
      then (case (if numline proto > 0
                  then (if numline proto \<ge> 65536
                        then loop_jit read_uint32 (numbc proto) [] s
                        else if numline proto \<ge> 256
                        then loop_jit read_uint16 (numbc proto) [] s
                        else loop_jit read_byte_jit (numbc proto) [] s)
                  else Inr (lineinfo_jit proto, s)) of
              Inl e \<Rightarrow> Inl e
            | Inr (lineinfo', s1) \<Rightarrow>
               (case loop_jit read_uvname (numuv proto) (uvnames proto) s1 of Inl e \<Rightarrow> Inl e
                | Inr (uvnames', s2) \<Rightarrow>
                  (case read_varnames (varnames proto) s2 of Inl e \<Rightarrow> Inl e
                   | Inr (varnames', s3) \<Rightarrow>
                       Inr (proto\<lparr>lineinfo_jit := lineinfo', uvnames := uvnames',
                                   varnames := varnames'\<rparr>, s3))))
      else Inr (proto, s))"

text \<open>\<open>read_proto\<close>: a size of zero returns the default prototype at once.\<close>

definition read_proto_jit :: "nat \<Rightarrow> bytes \<Rightarrow> error + (Proto_jit \<times> bytes)" where
  "read_proto_jit dump_flags s =
     (case read_uleb128 s of Inl e \<Rightarrow> Inl e | Inr (size', s0) \<Rightarrow>
        (let proto = new_Proto_jit\<lparr>size_jit := size'\<rparr>
         in if size_jit proto = 0 then Inr (proto, s0)
            else (case read_proto_head dump_flags proto s0 of Inl e \<Rightarrow> Inl e
                  | Inr (proto1, s1) \<Rightarrow>
                  (case read_proto_data proto1 s1 of Inl e \<Rightarrow> Inl e
                   | Inr (proto2, s2) \<Rightarrow> read_proto_debug dump_flags proto2 s2))))"







subsection \<open>\<open>parse\<close>\<close>






section \<open>Example files\<close>

text \<open>
  The 31-byte Lua 5.4 header with the reference values, and two one-prototype files
  without debug information whose only instruction has opcode 5 and opcode 9.
\<close>

definition example_header :: bytes where
  "example_header =
     [0x1B, 0x4C, 0x75, 0x61, 0x54, 0x00, 0x19, 0x93, 0x0D, 0x0A, 0x1A, 0x0A, 0x04, 0x08, 0x08,
      0x78, 0x56, 0, 0, 0, 0, 0, 0,  0, 0, 0, 0, 0, 0x28, 0x77, 0x40]"

definition one_instruction_file :: "byte \<Rightarrow> bytes" where
  "one_instruction_file b =
     example_header @ [0x00]
       @ [0x80, 0x80, 0x80, 0, 0, 2, 0x81, b, 0, 0, 0, 0x80, 0x80, 0x80, 0x80, 0x80, 0x80, 0x80]"

definition one_instruction_proto :: "nat \<Rightarrow> byte \<Rightarrow> Proto" where
  "one_instruction_proto inst b =
     Proto \<lparr>source = Some [], linedefined = 0, lastlinedefined = 0, numparams = 0,
            is_vararg = 0, maxstacksize = 2, code = [inst], constants = [], upvalues = [],
            lineinfo = [], abslineinfo = [], locvars = [], upvalue_names = [],
            ori = [(''source'', [0x80]), (''linedefined'', [0x80]), (''lastlinedefined'', [0x80]),
                   (''numparams'', [0]), (''is_vararg'', [0]), (''maxstacksize'', [2]),
                   (''code'', [0x81, b, 0, 0, 0]), (''constants'', [0x80]), (''upvalues'', [0x80]),
                   (''protos'', [0x80]), (''lineinfo'', [0x80]), (''abslineinfo'', [0x80]),
                   (''locvars'', [0x80]), (''upvalue_names'', [0x80])]\<rparr> []"

text \<open>A tree with a three-instruction root and a two-instruction child, given by the
  captured raw instruction groups, and the same tree after the transform with the key
  \<open>ab\<close>.\<close>

definition example_node :: "bytes \<Rightarrow> proto_fields" where
  "example_node code_raw = new_proto_fields\<lparr>ori := AList.update ''code'' code_raw post_init_ori\<rparr>"

definition example_tree :: Proto where
  "example_tree =
     Proto (example_node [0x83, 1, 0, 0, 0, 2, 0, 0, 0, 3, 0, 0, 0])
       [Proto (example_node [0x82, 7, 0, 0, 0, 8, 0, 0, 0]) []]"

definition example_tree_encrypted :: Proto where
  "example_tree_encrypted =
     Proto (example_node [0x83, 0x60, 0x62, 0x61, 0x62, 0x63, 0x62, 0x61, 0x62, 0x62, 0x62, 0x61, 0x62])
       [Proto (example_node [0x82, 0x66, 0x62, 0x61, 0x62, 0x69, 0x62, 0x61, 0x62]) []]"

text \<open>A header with the right signature, version, format, check data and sizes, whose
  test integer and test float are zero instead of \<open>0x5678\<close> and \<open>370.5\<close>.\<close>

definition wrong_test_values_header :: bytes where
  "wrong_test_values_header =
     [0x1B, 0x4C, 0x75, 0x61, 0x54, 0x00, 0x19, 0x93, 0x0D, 0x0A, 0x1A, 0x0A, 0x04, 0x08, 0x08,
      0, 0, 0, 0, 0, 0, 0, 0,  0, 0, 0, 0, 0, 0, 0, 0]"

text \<open>The one-instruction file as the writer emits it for the tree that \<open>parse\<close> returns:
  the source name of the main prototype is the empty string (\<open>0x81\<close>) where the file has
  the absent string (\<open>0x80\<close>).\<close>

definition rewritten_one_instruction_file :: "byte \<Rightarrow> bytes" where
  "rewritten_one_instruction_file b =
     example_header @ [0x00]
       @ [0x81, 0x80, 0x80, 0, 0, 2, 0x81, b, 0, 0, 0, 0x80, 0x80, 0x80, 0x80, 0x80, 0x80, 0x80]"



text \<open>A tree with debug information, four constants, an upvalue and one child, and the
  file that the writer emits for it.\<close>

definition example_written_tree :: Proto where
  "example_written_tree =
     Proto \<lparr>source = Some [0x40, 0x61], linedefined = 0, lastlinedefined = 0, numparams = 0,
            is_vararg = 1, maxstacksize = 2, code = [1],
            constants = [PyStr [0x61], PyInt 5, PyBool True, PyNone],
            upvalues = [\<lparr>instack = 1, idx = 0, kind = 0, upvalue_ori = []\<rparr>],
            lineinfo = [1], abslineinfo = [\<lparr>pc = 0, line = 300, absline_ori = []\<rparr>],
            locvars = [\<lparr>varname = Some [0x78], startpc = 0, endpc = 1, locvar_ori = []\<rparr>],
            upvalue_names = [Some [0x5F, 0x45, 0x4E, 0x56]],
            ori = [(''code'', [0x81, 1, 0, 0, 0])]\<rparr>
       [Proto (example_node [0x82, 7, 0, 0, 0, 8, 0, 0, 0]) []]"

definition example_written_file :: bytes where
  "example_written_file =
     example_header @ [0x01]
       @ [0x83, 0x40, 0x61, 0x80, 0x80, 0, 1, 2, 0x81, 1, 0, 0, 0]
       @ [0x84, 0x14, 0x82, 0x61, 0x23, 5, 0, 0, 0, 0, 0, 0, 0, 0x21, 0x00]
       @ [0x81, 1, 0, 0]
       @ [0x81]
       @ [0x80, 0x80, 0x80, 0, 0, 0, 0x82, 7, 0, 0, 0, 8, 0, 0, 0, 0x80, 0x80, 0x80,
          0x80, 0x80, 0x80, 0x80]
       @ [0x81, 1, 0x81, 0x80, 0x02, 0xAC, 0x81, 0x82, 0x78, 0x80, 0x81,
          0x81, 0x85, 0x5F, 0x45, 0x4E, 0x56]"

section \<open>Evaluation on concrete inputs\<close>

named_theorems lua_eval \<open>definitions unfolded to run the reader on a concrete file\<close>

lemmas [lua_eval] = read_size_with_raw_def read_size_def size_limit_def Let_def file_read_def
  check_header_def LUA_SIGNATURE_def read_byte_def LUAC_VERSION_def read_integer_def read_number_def
  unpack_q_def unpack_d_def unpack_B_def unpack_I_def read_byte_with_raw_def
  read_integer_with_raw_def read_number_with_raw_def read_string_with_raw_def decode_utf8_def
  read_instruction_def read_code_def read_constant_def read_constants_def read_upvalue_def
  read_upvalues_def read_absline_def read_locvar_def slice_def read_debug_def read_proto_basic_def
  read_proto_pre_def read_proto.simps parse_def new_proto_fields_def post_init_ori_def le_nat_def
  is_cont_def second_ok_def
  LUA_TNIL_def LUA_TBOOLEAN_def LUA_TNUMBER_def LUA_TSTRING_def VNIL_def VFALSE_def VTRUE_def
  VNUMFLT_def VNUMINT_def VSHRSTR_def VLNGSTR_def

lemma parse_one_instruction_file_5:
  "parse (one_instruction_file 5) = Inr (one_instruction_proto 5 5)"
  by (simp add: lua_eval one_instruction_file_def example_header_def one_instruction_proto_def)

lemma parse_one_instruction_file_9:
  "parse (one_instruction_file 9) = Inr (one_instruction_proto 9 9)"
  by (simp add: lua_eval one_instruction_file_def example_header_def one_instruction_proto_def)

section \<open>Trees that the writer can take\<close>

text \<open>
  What the writer needs of a tree for its output to be read back: sizes and counts that
  fit the size reader, strings made of Unicode code points, a source name on the main
  prototype, a captured instruction group (when there is one) that is a count followed by
  four bytes for each instruction, and no child that has a captured source of more than one byte together with
  the empty string as its source.
\<close>

definition size_ok :: "nat \<Rightarrow> bool" where
  "size_ok n = (n < 2 ^ 64)"

definition str_ok :: "pystr \<Rightarrow> bool" where
  "str_ok s = (list_all (\<lambda>c. c \<le> 0x10FFFF) s \<and> 4 * length s + 1 < 2 ^ 64)"

definition opt_str_ok :: "pystr option \<Rightarrow> bool" where
  "opt_str_ok s = (case s of None \<Rightarrow> True | Some str \<Rightarrow> str_ok str)"

definition const_ok :: "lua_const \<Rightarrow> bool" where
  "const_ok c = (case c of PyStr s \<Rightarrow> str_ok s | _ \<Rightarrow> True)"

definition code_group_ok :: "bytes \<Rightarrow> bool" where
  "code_group_ok code_raw =
     (case read_size_with_raw code_raw of
        Inl e \<Rightarrow> False
      | Inr ((n, n_raw), payload) \<Rightarrow> length payload = 4 * n)"

definition source_ok :: "bool \<Rightarrow> proto_fields \<Rightarrow> bool" where
  "source_ok is_main_proto p =
     (opt_str_ok (source p) \<and>
      (if is_main_proto then source p \<noteq> None
       else (case map_of (ori p) ''source'' of
               None \<Rightarrow> True
             | Some source_raw \<Rightarrow> length source_raw \<le> 1 \<or> source p \<noteq> Some [])))"

definition node_ok :: "bool \<Rightarrow> proto_fields \<Rightarrow> bool" where
  "node_ok is_main_proto p =
     (source_ok is_main_proto p
      \<and> size_ok (linedefined p) \<and> size_ok (lastlinedefined p)
      \<and> (case map_of (ori p) ''code'' of
            None \<Rightarrow> size_ok (length (code p))
          | Some code_raw \<Rightarrow> code_group_ok code_raw)
      \<and> size_ok (length (constants p)) \<and> list_all const_ok (constants p)
      \<and> size_ok (length (upvalues p))
      \<and> size_ok (length (lineinfo p))
      \<and> size_ok (length (abslineinfo p))
      \<and> list_all (\<lambda>a. size_ok (pc a) \<and> size_ok (line a)) (abslineinfo p)
      \<and> size_ok (length (locvars p))
      \<and> list_all (\<lambda>l. opt_str_ok (varname l) \<and> size_ok (startpc l) \<and> size_ok (endpc l))
            (locvars p)
      \<and> size_ok (length (upvalue_names p)) \<and> list_all opt_str_ok (upvalue_names p))"

fun canonical :: "bool \<Rightarrow> Proto \<Rightarrow> bool" where
  "canonical is_main_proto (Proto p subs) =
     (node_ok is_main_proto p \<and> size_ok (length subs) \<and> list_all (canonical False) subs)"

text \<open>What the reader returns for an upvalue, an absolute line entry and a local variable
  that the writer wrote: the same record, with the written bytes as its captured raw data.\<close>

definition upvalue_read :: "Upvalue \<Rightarrow> Upvalue" where
  "upvalue_read u = u\<lparr>upvalue_ori := projr (write_upvalue u)\<rparr>"

definition absline_read :: "AbsLineInfo \<Rightarrow> AbsLineInfo" where
  "absline_read a = a\<lparr>absline_ori := projr (write_absline a)\<rparr>"

definition locvar_read :: "LocVar \<Rightarrow> LocVar" where
  "locvar_read l = l\<lparr>locvar_ori := projr (write_locvar l)\<rparr>"

text \<open>The bytes of one entry of a constant table in a file: a string constant is its body
  (size and UTF-8 data, as \<open>_write_string\<close> writes them) under the tag byte \<open>t\<close>, which the
  file may choose; any other constant is what \<open>_write_constants\<close> writes for it.\<close>

definition stored_constant :: "lua_const \<Rightarrow> byte \<Rightarrow> bytes" where
  "stored_constant c t =
     (case c of
        PyStr s \<Rightarrow> (case write_string (Some s) of Inl e \<Rightarrow> [] | Inr body \<Rightarrow> t # body)
      | _ \<Rightarrow> (case write_constant c of Inl e \<Rightarrow> [] | Inr W \<Rightarrow> W))"

section \<open>Properties of the variable-length integers\<close>

lemma and_7f_mod: "(g::nat) AND 0x7f = g mod 128"
proof -
  have "g AND mask 7 = take_bit 7 g" by (simp add: take_bit_eq_mask)
  then show ?thesis by (simp add: take_bit_eq_mod mask_eq_exp_minus_1)
qed

lemma and_80_zero_iff: "((g::nat) AND 0x80 = 0) \<longleftrightarrow> even (g div 128)"
proof -
  have "(g AND 2 ^ 7 = 0) \<longleftrightarrow> \<not> bit g 7" by (rule and_exp_eq_0_iff_not_bit)
  then show ?thesis by (simp add: bit_iff_odd)
qed

lemma push_or_add: "a < 2 ^ k \<Longrightarrow> push_bit k (x::nat) OR a = x * 2 ^ k + a"
proof -
  assume a: "a < 2 ^ k"
  then have ta: "take_bit k a = a" by (simp add: take_bit_nat_eq_self)
  have "push_bit k x + take_bit k a = push_bit k x OR take_bit k a"
    by (rule disjunctive_add) (auto simp: bit_push_bit_iff bit_take_bit_iff)
  then show ?thesis by (simp add: push_bit_eq_mult ta)
qed

lemma or_80: "a < 128 \<Longrightarrow> (a::nat) OR 0x80 = a + 128"
  using push_or_add [of a 7 1] by (simp add: ac_simps)

lemma bytes_list_of_rev: "v > 0 \<Longrightarrow> rev (bytes_list_of v) = rev (bytes_list_of (v div 128)) @ [v mod 128]"
  by (subst bytes_list_of.simps) (simp add: and_7f_mod drop_bit_eq_div)

lemma map_enumerate_last:
  "map (\<lambda>(i, bv). g (if i = length xs then h bv else bv)) (enumerate 0 (xs @ [y]))
     = map g xs @ [g (h y)]"
proof -
  have "map (\<lambda>(i, bv). g (if i = length xs then h bv else bv)) (enumerate 0 xs) = map g (map snd (enumerate 0 xs))"
    unfolding map_map by (rule map_cong) (auto simp: in_set_enumerate_eq)
  then show ?thesis by (simp add: enumerate_append_eq)
qed

lemma write_size_pos:
  assumes "v > 0"
  shows "write_size v = map of_nat (rev (bytes_list_of (v div 128))) @ [of_nat (v mod 128 + 128)]"
proof -
  have len: "length (bytes_list_of v) - 1 = length (rev (bytes_list_of (v div 128)))"
    using assms by (subst bytes_list_of.simps) (simp add: drop_bit_eq_div)
  have "v mod 128 OR 0x80 = v mod 128 + 128" by (rule or_80) simp
  then show ?thesis
    using assms unfolding write_size_def Let_def len bytes_list_of_rev [OF assms]
    by (simp only: map_enumerate_last [where h = "\<lambda>b. b OR 0x80"]) simp
qed

lemma unat_byte_of_nat: "n < 256 \<Longrightarrow> unat (of_nat n :: byte) = n"
  by (simp only: unat_of_nat) simp

lemma read_size_loop_group:
  assumes "x < size_limit" "g < 128"
  shows "read_size_loop x (of_nat g # f) = read_size_loop (x * 128 + g) f"
proof -
  have u: "unat (of_nat g :: byte) = g" using assms by (intro unat_byte_of_nat) simp
  show ?thesis using assms
    by (simp add: u and_7f_mod and_80_zero_iff push_or_add Let_def del: of_nat_add)
qed

lemma read_size_loop_last:
  assumes "x < size_limit" "g < 128"
  shows "read_size_loop x (of_nat (g + 128) # f) = Inr (x * 128 + g, f)"
proof -
  have u: "unat (of_nat (g + 128) :: byte) = g + 128" using assms by (intro unat_byte_of_nat) simp
  have d: "(g + 128) div 128 = 1" "(g + 128) mod 128 = g" using assms by simp_all
  show ?thesis using assms
    by (simp add: u d and_7f_mod and_80_zero_iff push_or_add Let_def del: of_nat_add)
qed

lemma read_size_loop_groups:
  "v div 128 < size_limit \<Longrightarrow>
   read_size_loop 0 (map of_nat (rev (bytes_list_of v)) @ f) = read_size_loop v f"
proof (induction v arbitrary: f rule: bytes_list_of.induct)
  case (1 v)
  show ?case
  proof (cases "v > 0")
    case False
    then show ?thesis by (subst bytes_list_of.simps) simp
  next
    case True
    have lim: "v div 128 div 128 < size_limit" using "1.prems" div_le_dividend [of "v div 128" 128] by linarith
    have "read_size_loop 0 (map of_nat (rev (bytes_list_of (v div 128))) @ (of_nat (v mod 128) # f))
            = read_size_loop (v div 128) (of_nat (v mod 128) # f)"
      using "1.IH" [OF True, of "of_nat (v mod 128) # f"] lim by (simp add: drop_bit_eq_div)
    also have "\<dots> = read_size_loop (v div 128 * 128 + v mod 128) f"
      by (rule read_size_loop_group) (use "1.prems" in simp_all)
    finally show ?thesis using True by (simp add: bytes_list_of_rev)
  qed
qed

lemma size_limit_eq: "size_limit = 2 ^ 57"
  by (simp add: size_limit_def push_bit_eq_mult)

lemma read_size_write_size:
  assumes "v < 2 ^ 64"
  shows "read_size (write_size v @ f) = Inr (v, f)"
proof (cases "v = 0")
  case True
  then show ?thesis by (simp add: read_size_def write_size_def size_limit_eq)
next
  case False
  then have pos: "v > 0" by simp
  have lim: "v div 128 < size_limit" using assms by (simp add: size_limit_eq)
  then have lim2: "v div 128 div 128 < size_limit" using div_le_dividend [of "v div 128" 128] by linarith
  have "read_size (write_size v @ f)
          = read_size_loop 0 (map of_nat (rev (bytes_list_of (v div 128))) @ (of_nat (v mod 128 + 128) # f))"
    by (simp add: read_size_def write_size_pos [OF pos])
  also have "\<dots> = read_size_loop (v div 128) (of_nat (v mod 128 + 128) # f)"
    by (rule read_size_loop_groups [OF lim2])
  also have "\<dots> = Inr (v div 128 * 128 + v mod 128, f)"
    by (rule read_size_loop_last [OF lim]) simp
  finally show ?thesis by simp
qed

lemma push_split7: "push_bit sh (v mod 128) OR push_bit (sh + 7) (v div 128) = push_bit sh (v::nat)"
proof -
  have "push_bit 7 (v div 128) OR v mod 128 = v div 128 * 2 ^ 7 + v mod 128"
    by (rule push_or_add) simp
  then have v: "push_bit 7 (v div 128) OR v mod 128 = v" by simp
  have "push_bit sh (v mod 128) OR push_bit (sh + 7) (v div 128)
          = push_bit sh (push_bit 7 (v div 128) OR v mod 128)"
    by (simp add: push_bit_or push_bit_push_bit ac_simps)
  then show ?thesis by (simp only: v)
qed

lemma uleb_step_last:
  assumes "v < 128"
  shows "unat (of_nat v :: byte) AND 0x7F = v" "unat (of_nat v :: byte) AND 0x80 = 0"
proof -
  have u: "unat (of_nat v :: byte) = v" using assms by (intro unat_byte_of_nat) simp
  show "unat (of_nat v :: byte) AND 0x7F = v" using assms by (simp add: u and_7f_mod)
  show "unat (of_nat v :: byte) AND 0x80 = 0" using assms by (simp add: u and_80_zero_iff)
qed

lemma uleb_step_more:
  shows "unat (of_nat (v mod 128 + 128) :: byte) AND 0x7F = v mod 128"
    "unat (of_nat (v mod 128 + 128) :: byte) AND 0x80 \<noteq> 0"
proof -
  have u: "unat (of_nat (v mod 128 + 128) :: byte) = v mod 128 + 128"
    by (intro unat_byte_of_nat) simp
  have d: "(v mod 128 + 128) div 128 = 1" "(v mod 128 + 128) mod 128 = v mod 128" by simp_all
  show "unat (of_nat (v mod 128 + 128) :: byte) AND 0x7F = v mod 128"
    by (simp add: u and_7f_mod d del: of_nat_add)
  show "unat (of_nat (v mod 128 + 128) :: byte) AND 0x80 \<noteq> 0"
    by (simp add: u and_80_zero_iff d del: of_nat_add)
qed

lemma pow_ge_128: "(128::nat) \<le> v \<Longrightarrow> v < 2 ^ k \<Longrightarrow> 7 < k"
proof (rule ccontr)
  assume a: "128 \<le> v" "v < 2 ^ k" "\<not> 7 < k"
  then have "k \<le> 7" by simp
  then have "(2::nat) ^ k \<le> 2 ^ 7" by (rule power_increasing) simp
  with a show False by simp
qed

lemma div128_lt: "7 < k \<Longrightarrow> (v::nat) < 2 ^ k \<Longrightarrow> v div 128 < 2 ^ (k - 7)"
proof -
  assume k: "7 < k" and v: "v < 2 ^ k"
  have "(2::nat) ^ ((k - 7) + 7) = 2 ^ (k - 7) * 2 ^ 7" by (rule power_add)
  moreover have "(k - 7) + 7 = k" using k by simp
  ultimately have "(2::nat) ^ k = 2 ^ (k - 7) * 128" by simp
  then have "v < 2 ^ (k - 7) * 128" using v by simp
  then show ?thesis by (simp add: less_mult_imp_div_less)
qed

lemma read_uleb128_loop_encode:
  "v < 2 ^ (35 - sh) \<Longrightarrow>
   read_uleb128_loop r sh (encode_uleb128 v @ s) = Inr (r OR push_bit sh v, s)"
proof (induction v arbitrary: r sh rule: encode_uleb128.induct)
  case (1 v)
  show ?case
  proof (cases "v < 128")
    case True
    then show ?thesis
      by (subst encode_uleb128.simps) (simp add: uleb_step_last Let_def)
  next
    case False
    then have k: "7 < 35 - sh" using "1.prems" by (intro pow_ge_128 [of v]) simp_all
    then have sh: "\<not> 35 \<le> sh + 7" by simp
    have "v div 128 < 2 ^ (35 - sh - 7)" using k "1.prems" by (rule div128_lt)
    then have lt: "v div 128 < 2 ^ (35 - (sh + 7))" by simp
    have ih: "read_uleb128_loop (r OR push_bit sh (v mod 128)) (sh + 7) (encode_uleb128 (v div 128) @ s)
                = Inr ((r OR push_bit sh (v mod 128)) OR push_bit (sh + 7) (v div 128), s)"
      using "1.IH" [OF False lt] .
    have "encode_uleb128 v = of_nat (v mod 128 + 128) # encode_uleb128 (v div 128)"
      using False by (subst encode_uleb128.simps) simp
    then show ?thesis
      using sh ih by (simp add: uleb_step_more Let_def or.assoc push_split7 del: of_nat_add)
  qed
qed

lemma read_uleb128_encode:
  "v < 2 ^ 35 \<Longrightarrow> read_uleb128 (encode_uleb128 v @ s) = Inr (v, s)"
  using read_uleb128_loop_encode [of v 0 0 s] by (simp add: read_uleb128_def)

lemma read_uleb128_33_loop_encode:
  "v < 2 ^ (32 - sh) \<Longrightarrow>
   read_uleb128_33_loop r sh (encode_uleb128 v @ s) = Inr (r OR push_bit sh v, s)"
proof (induction v arbitrary: r sh rule: encode_uleb128.induct)
  case (1 v)
  show ?case
  proof (cases "v < 128")
    case True
    then show ?thesis
      by (subst encode_uleb128.simps) (simp add: uleb_step_last Let_def)
  next
    case False
    then have k: "7 < 32 - sh" using "1.prems" by (intro pow_ge_128 [of v]) simp_all
    then have sh: "\<not> 32 \<le> sh + 7" by simp
    have "v div 128 < 2 ^ (32 - sh - 7)" using k "1.prems" by (rule div128_lt)
    then have lt: "v div 128 < 2 ^ (32 - (sh + 7))" by simp
    have ih: "read_uleb128_33_loop (r OR push_bit sh (v mod 128)) (sh + 7) (encode_uleb128 (v div 128) @ s)
                = Inr ((r OR push_bit sh (v mod 128)) OR push_bit (sh + 7) (v div 128), s)"
      using "1.IH" [OF False lt] .
    have "encode_uleb128 v = of_nat (v mod 128 + 128) # encode_uleb128 (v div 128)"
      using False by (subst encode_uleb128.simps) simp
    then show ?thesis
      using sh ih by (simp add: uleb_step_more Let_def or.assoc push_split7 del: of_nat_add)
  qed
qed

lemma and_3f_mod: "(g::nat) AND 0x3F = g mod 64"
proof -
  have "g AND mask 6 = take_bit 6 g" by (simp add: take_bit_eq_mask)
  then show ?thesis by (simp add: take_bit_eq_mod mask_eq_exp_minus_1)
qed

lemma flag_word_split:
  fixes lo b :: nat
  assumes "b < 2"
  shows "(2 * lo + b) mod 128 = 2 * (lo mod 64) + b" "(2 * lo + b) div 128 = lo div 64"
proof -
  define q where "q = lo div 64"
  define r where "r = lo mod 64"
  have r: "r < 64" by (simp add: r_def)
  have lo: "lo = 64 * q + r" by (simp add: q_def r_def)
  have small: "2 * r + b < 128" using r assms by linarith
  have w: "2 * lo + b = (2 * r + b) + 128 * q" by (simp add: lo)
  have "((2 * r + b) + 128 * q) mod 128 = 2 * r + b" using small by simp
  then show "(2 * lo + b) mod 128 = 2 * (lo mod 64) + b" by (simp only: w r_def)
  have "((2 * r + b) + 128 * q) div 128 = q" using small by simp
  then show "(2 * lo + b) div 128 = lo div 64" by (simp only: w q_def)
qed


lemma first_byte_33:
  fixes r b :: nat
  assumes "b < 2"
  shows "(2 * r + b) mod 2 = b" "(2 * r + b) div 2 = r"
  using assms by simp_all

lemma first_byte_33_more:
  fixes r b :: nat
  assumes "b < 2"
  shows "(2 * r + b + 128) mod 2 = b" "(2 * r + b + 128) div 2 = r + 64"
proof -
  have e: "2 * r + b + 128 = 2 * (r + 64) + b" by simp
  show "(2 * r + b + 128) mod 2 = b" unfolding e using assms by (rule first_byte_33)
  show "(2 * r + b + 128) div 2 = r + 64" unfolding e using assms by (rule first_byte_33)
qed

lemma read_uleb128_33_encode:
  assumes lo: "lo < 2 ^ 32" and hi: "hi < 2 ^ 35"
  shows "read_uleb128_33 (encode_uleb128_33 lo hi isn @ s)
           = Inr (((lo, if isn then hi else 0), isn), s)"
proof -
  define b :: nat where "b = (if isn then 1 else 0)"
  define w where "w = 2 * lo + b"
  define rest where "rest = (if isn then encode_uleb128 hi else []) @ s"
  define tail where "tail = (if isn then (case read_uleb128 rest of Inl e \<Rightarrow> Inl e
                                | Inr (hi', s3) \<Rightarrow> Inr (((lo, hi'), True), s3))
                             else Inr (((lo, 0), False), rest))"
  have b: "b < 2" by (simp add: b_def)
  have bz: "b \<noteq> 0 \<longleftrightarrow> isn" "b = Suc 0 \<longleftrightarrow> isn" "0 < b \<longleftrightarrow> isn"
    by (simp_all add: b_def)
  have tail: "tail = Inr (((lo, if isn then hi else 0), isn), s)"
    using hi by (simp add: tail_def rest_def read_uleb128_encode)
  have enc: "encode_uleb128_33 lo hi isn @ s = encode_uleb128 w @ rest"
    by (simp add: encode_uleb128_33_def w_def b_def rest_def)
  show ?thesis
  proof (cases "w < 128")
    case True
    have u: "unat (of_nat w :: byte) = w" using True by (intro unat_byte_of_nat) simp
    have lo64: "lo < 64" using True unfolding w_def by linarith
    have e: "encode_uleb128 w = [of_nat w]" using True by (subst encode_uleb128.simps) simp
    have f: "w mod 2 = b" "w div 2 = lo" unfolding w_def using b by (rule first_byte_33)+
    have "read_uleb128_33 (of_nat w # rest) = tail"
      unfolding read_uleb128_33_def tail_def using lo64
      by (cases isn) (simp_all add: u Let_def and_3f_mod drop_bit_eq_div f bz and_one_eq)
    then show ?thesis by (simp add: enc e tail)
  next
    case False
    define r where "r = lo mod 64"
    define fb where "fb = 2 * r + b + 128"
    have r: "r < 64" by (simp add: r_def)
    have wm: "w mod 128 = 2 * r + b" and wd: "w div 128 = lo div 64"
      unfolding w_def r_def using b by (rule flag_word_split)+
    have fb256: "fb < 256" unfolding fb_def using r b by linarith
    have u: "unat (of_nat fb :: byte) = fb" using fb256 by (rule unat_byte_of_nat)
    have e: "encode_uleb128 w = of_nat fb # encode_uleb128 (lo div 64)"
      using False unfolding fb_def by (subst encode_uleb128.simps) (simp add: wm wd)
    have f: "fb mod 2 = b" "fb div 2 = r + 64" unfolding fb_def using b by (rule first_byte_33_more)+
    have "lo div 64 < 2 ^ (32 - 6)" using lo by simp
    then have loop: "read_uleb128_33_loop r 6 (encode_uleb128 (lo div 64) @ rest)
                  = Inr (r OR push_bit 6 (lo div 64), rest)"
      by (rule read_uleb128_33_loop_encode)
    have "push_bit 6 (lo div 64) OR r = lo div 64 * 2 ^ 6 + r"
      by (rule push_or_add) (use r in simp)
    then have join: "r OR push_bit 6 (lo div 64) = lo" by (simp add: or.commute r_def)
    have rm: "r mod 64 = r" using r by simp
    have "read_uleb128_33 (of_nat fb # encode_uleb128 (lo div 64) @ rest) = tail"
      unfolding read_uleb128_33_def tail_def
      by (cases isn) (simp_all add: u Let_def and_3f_mod drop_bit_eq_div f bz and_one_eq rm loop join)
    then show ?thesis by (simp add: enc e tail)
  qed
qed


text \<open>
  C4.  Encoding then decoding returns the value, for each varint scheme: the MSB-terminated
  big-endian 7-bit scheme of Lua 5.4 (\<open>read_size\<close> after \<open>_write_size\<close>, zero included) for
  every value below \<open>2^64\<close>, the LSB-first scheme read by \<open>read_uleb128\<close> for every value
  that fits its five groups, and the 33-bit variant read by \<open>read_uleb128_33\<close> in its integer
  and its float branch for 32-bit words \<open>lo\<close> and \<open>hi\<close>.  Bytes that follow the encoding are
  left unread.
\<close>

theorem varint_roundtrip:
  assumes "v < 2 ^ 64" and "u < 2 ^ 35" and "lo < 2 ^ 32" and "hi < 2 ^ 32"
  shows "read_size (write_size v @ f) = Inr (v, f)
       \<and> read_uleb128 (encode_uleb128 u @ f) = Inr (u, f)
       \<and> read_uleb128_33 (encode_uleb128_33 lo hi False @ f) = Inr (((lo, 0), False), f)
       \<and> read_uleb128_33 (encode_uleb128_33 lo hi True @ f) = Inr (((lo, hi), True), f)"
proof -
  have hi': "hi < 2 ^ 35"
  proof -
    have "(2::nat) ^ 32 \<le> 2 ^ 35" by simp
    with assms(4) show ?thesis by linarith
  qed
  have a: "read_size (write_size v @ f) = Inr (v, f)"
    using assms(1) by (rule read_size_write_size)
  have b: "read_uleb128 (encode_uleb128 u @ f) = Inr (u, f)"
    using assms(2) by (rule read_uleb128_encode)
  have c: "read_uleb128_33 (encode_uleb128_33 lo hi False @ f) = Inr (((lo, 0), False), f)"
    using read_uleb128_33_encode [OF assms(3) hi', of False f] by simp
  have d: "read_uleb128_33 (encode_uleb128_33 lo hi True @ f) = Inr (((lo, hi), True), f)"
    using read_uleb128_33_encode [OF assms(3) hi', of True f] by simp
  from a b c d show ?thesis by simp
qed

theorem varint_roundtrip_witness:
  "(0::nat) < 2 ^ 64 \<and> (300::nat) < 2 ^ 35 \<and> (4294967295::nat) < 2 ^ 32 \<and> (1081507840::nat) < 2 ^ 32
   \<and> read_size (write_size 0 @ [0x2A]) = Inr (0, [0x2A])
   \<and> read_uleb128 (encode_uleb128 300 @ [0x2A]) = Inr (300, [0x2A])
   \<and> read_uleb128_33 (encode_uleb128_33 4294967295 1081507840 False @ [0x2A])
         = Inr (((4294967295, 0), False), [0x2A])
   \<and> read_uleb128_33 (encode_uleb128_33 4294967295 1081507840 True @ [0x2A])
         = Inr (((4294967295, 1081507840), True), [0x2A])"
  using varint_roundtrip [of 0 300 4294967295 1081507840 "[0x2A]"] by simp

section \<open>Instruction decoding\<close>

lemma OPCODE_INFO_unknown: "83 \<le> k \<Longrightarrow> OPCODE_INFO k = None"
  by (simp add: OPCODE_INFO_def OPCODE_INFO_items_def)

text \<open>
  C5.  Instruction decoding is total: the source has no \<open>raise\<close>, and its one partial
  operation, the lookup in \<open>OPCODE_INFO\<close>, is guarded by the membership test.  For every
  word the decoded view holds the word itself and, as opcode, its low seven bits; when
  that opcode is not a key of the table (the keys are 0 to 82) the view is still returned,
  with the name \<open>UNKNOWN\<close>, no mode and no operand fields.
\<close>

theorem decode_instruction_total:
  "opcode (decode_instruction w) = take_bit 7 w
   \<and> raw (decode_instruction w) = w
   \<and> (83 \<le> take_bit 7 w \<longrightarrow> OPCODE_INFO (take_bit 7 w) = None)
   \<and> (OPCODE_INFO (take_bit 7 w) = None \<longrightarrow>
        name (decode_instruction w) = ''UNKNOWN'' \<and> mode (decode_instruction w) = None
        \<and> operands (decode_instruction w) = [])"
  by (auto simp: decode_instruction_def Let_def and_7f_mod take_bit_eq_mod OPCODE_INFO_unknown
           split: option.splits)

theorem decode_instruction_total_witness:
  "(83::nat) \<le> take_bit 7 4294967295
   \<and> OPCODE_INFO (take_bit 7 4294967295) = None
   \<and> opcode (decode_instruction 4294967295) = 127
   \<and> name (decode_instruction 4294967295) = ''UNKNOWN''"
  using decode_instruction_total [of 4294967295] by (simp add: take_bit_eq_mod)

section \<open>Opcode comparison\<close>

abbreviation opc :: "nat \<Rightarrow> nat" where
  "opc inst \<equiv> opcode (decode_instruction inst)"

lemma analyze_loop_preserves:
  "analyze_loop ps m0 w0 = (m, ws) \<Longrightarrow> map_of m0 k = Some v \<Longrightarrow> map_of m k = Some v"
proof (induction ps arbitrary: m0 w0)
  case Nil
  then show ?case by simp
next
  case (Cons p ps)
  obtain s t where p: "p = (s, t)" by (cases p)
  show ?case
  proof (cases "map_of m0 (opc s)")
    case None
    with Cons.prems have k: "k \<noteq> opc s" by auto
    from Cons.prems None have "analyze_loop ps (AList.update (opc s) (opc t) m0) w0 = (m, ws)"
      by (simp add: p Let_def)
    moreover have "map_of (AList.update (opc s) (opc t) m0) k = Some v"
      using Cons.prems(2) k by (simp add: update_conv')
    ultimately show ?thesis by (rule Cons.IH)
  next
    case (Some recorded)
    with Cons.prems obtain w1 where "analyze_loop ps m0 w1 = (m, ws)"
      by (auto simp: p Let_def split: if_splits)
    then show ?thesis using Cons.prems(2) by (rule Cons.IH)
  qed
qed

lemma analyze_loop_mapping:
  "analyze_loop ps m0 w0 = (m, ws) \<Longrightarrow>
   map_of m k = (case map_of m0 k of
                   Some v \<Rightarrow> Some v
                 | None \<Rightarrow> map_option (\<lambda>p. opc (snd p)) (find (\<lambda>p. opc (fst p) = k) ps))"
proof (induction ps arbitrary: m0 w0)
  case Nil
  then show ?case by (simp split: option.splits)
next
  case (Cons p ps)
  obtain s t where p: "p = (s, t)" by (cases p)
  show ?case
  proof (cases "map_of m0 (opc s)")
    case None
    from Cons.prems None have run: "analyze_loop ps (AList.update (opc s) (opc t) m0) w0 = (m, ws)"
      by (simp add: p Let_def)
    show ?thesis
      using Cons.IH [OF run] None by (auto simp: p update_conv' split: option.splits)
  next
    case (Some recorded)
    with Cons.prems obtain w1 where run: "analyze_loop ps m0 w1 = (m, ws)"
      by (auto simp: p Let_def split: if_splits)
    show ?thesis
      using Cons.IH [OF run] Some by (auto simp: p split: option.splits)
  qed
qed

lemma analyze_loop_warnings:
  "analyze_loop ps m0 w0 = (m, ws) \<Longrightarrow>
   ws = w0 @ map (\<lambda>p. (opc (fst p), the (map_of m (opc (fst p))), opc (snd p)))
              (filter (\<lambda>p. map_of m (opc (fst p)) \<noteq> Some (opc (snd p))) ps)"
proof (induction ps arbitrary: m0 w0)
  case Nil
  then show ?case by simp
next
  case (Cons p ps)
  obtain s t where p: "p = (s, t)" by (cases p)
  show ?case
  proof (cases "map_of m0 (opc s)")
    case None
    from Cons.prems None have run: "analyze_loop ps (AList.update (opc s) (opc t) m0) w0 = (m, ws)"
      by (simp add: p Let_def)
    have "map_of (AList.update (opc s) (opc t) m0) (opc s) = Some (opc t)"
      by (simp add: update_conv')
    with run have "map_of m (opc s) = Some (opc t)" by (rule analyze_loop_preserves)
    then show ?thesis using Cons.IH [OF run] by (simp add: p)
  next
    case (Some recorded)
    show ?thesis
    proof (cases "recorded = opc t")
      case True
      with Cons.prems Some have run: "analyze_loop ps m0 w0 = (m, ws)"
        by (simp add: p Let_def)
      from run Some have "map_of m (opc s) = Some recorded" by (rule analyze_loop_preserves)
      then show ?thesis using Cons.IH [OF run] True by (simp add: p)
    next
      case False
      with Cons.prems Some have run:
        "analyze_loop ps m0 (w0 @ [(opc s, recorded, opc t)]) = (m, ws)"
        by (simp add: p Let_def)
      from run Some have "map_of m (opc s) = Some recorded" by (rule analyze_loop_preserves)
      then show ?thesis using Cons.IH [OF run] False by (simp add: p)
    qed
  qed
qed

lemma extract_from_protos_concat:
  "extract_from_protos subs = concat (map extract_all_instructions subs)"
  by (induction subs) simp_all

text \<open>
  C6.  The instruction list of a tree is its prototypes' instructions in preorder (a
  node's own, then each child's, recursively).  When both files parse, \<open>compare_opcodes\<close>
  raises the instruction-count mismatch exactly when the two lists differ in length;
  otherwise it returns a dictionary that maps every standard opcode to the shuffled opcode
  of its first aligned pair, and the warnings are exactly the aligned pairs, in order, whose
  shuffled opcode differs from the recorded one: they are reported and change nothing.
\<close>

theorem compare_opcodes_correct:
  assumes "parse standard_file = Inr a" and "parse shuffled_file = Inr b"
  shows "extract_all_instructions (Proto p subs)
           = code p @ concat (map extract_all_instructions subs)
       \<and> (compare_opcodes standard_file shuffled_file = Inl InstructionCountMismatch
            \<longleftrightarrow> length (extract_all_instructions a) \<noteq> length (extract_all_instructions b))
       \<and> (length (extract_all_instructions a) = length (extract_all_instructions b) \<longrightarrow>
            (\<exists>m ws. compare_opcodes standard_file shuffled_file = Inr (m, ws)
               \<and> (\<forall>k. map_of m k
                       = map_option (\<lambda>pr. opc (snd pr))
                           (find (\<lambda>pr. opc (fst pr) = k)
                              (zip (extract_all_instructions a) (extract_all_instructions b))))
               \<and> ws = map (\<lambda>pr. (opc (fst pr), the (map_of m (opc (fst pr))), opc (snd pr)))
                         (filter (\<lambda>pr. map_of m (opc (fst pr)) \<noteq> Some (opc (snd pr)))
                            (zip (extract_all_instructions a) (extract_all_instructions b)))))"
proof -
  let ?xs = "extract_all_instructions a" and ?ys = "extract_all_instructions b"
  have pre: "extract_all_instructions (Proto p subs)
               = code p @ concat (map extract_all_instructions subs)"
    by (simp add: extract_from_protos_concat)
  have cmp: "compare_opcodes standard_file shuffled_file
               = (if length ?xs \<noteq> length ?ys then Inl InstructionCountMismatch
                  else Inr (analyze_opcode_mapping ?xs ?ys))"
    by (simp add: compare_opcodes_def assms Let_def)
  have mis: "compare_opcodes standard_file shuffled_file = Inl InstructionCountMismatch
               \<longleftrightarrow> length ?xs \<noteq> length ?ys"
    by (simp add: cmp)
  have ok: "\<exists>m ws. compare_opcodes standard_file shuffled_file = Inr (m, ws)
               \<and> (\<forall>k. map_of m k
                       = map_option (\<lambda>pr. opc (snd pr)) (find (\<lambda>pr. opc (fst pr) = k) (zip ?xs ?ys)))
               \<and> ws = map (\<lambda>pr. (opc (fst pr), the (map_of m (opc (fst pr))), opc (snd pr)))
                         (filter (\<lambda>pr. map_of m (opc (fst pr)) \<noteq> Some (opc (snd pr))) (zip ?xs ?ys))"
    if len: "length ?xs = length ?ys"
  proof -
    obtain m ws where run: "analyze_loop (zip ?xs ?ys) [] [] = (m, ws)"
      by (cases "analyze_loop (zip ?xs ?ys) [] []")
    have "compare_opcodes standard_file shuffled_file = Inr (m, ws)"
      using len run by (simp add: cmp analyze_opcode_mapping_def)
    moreover have "\<forall>k. map_of m k
             = map_option (\<lambda>pr. opc (snd pr)) (find (\<lambda>pr. opc (fst pr) = k) (zip ?xs ?ys))"
      using analyze_loop_mapping [OF run] by simp
    moreover have "ws = map (\<lambda>pr. (opc (fst pr), the (map_of m (opc (fst pr))), opc (snd pr)))
                         (filter (\<lambda>pr. map_of m (opc (fst pr)) \<noteq> Some (opc (snd pr))) (zip ?xs ?ys))"
      using analyze_loop_warnings [OF run] by simp
    ultimately show ?thesis by blast
  qed
  from pre mis ok show ?thesis by blast
qed

theorem compare_opcodes_correct_witness:
  "parse (one_instruction_file 5) = Inr (one_instruction_proto 5 5)
   \<and> parse (one_instruction_file 9) = Inr (one_instruction_proto 9 9)
   \<and> compare_opcodes (one_instruction_file 5) (one_instruction_file 9)
        \<noteq> Inl InstructionCountMismatch
   \<and> compare_opcodes (one_instruction_file 5) (one_instruction_file 9) = Inr ([(5, 9)], [])"
proof -
  have ev: "compare_opcodes (one_instruction_file 5) (one_instruction_file 9) = Inr ([(5, 9)], [])"
    by (simp add: compare_opcodes_def parse_one_instruction_file_5 parse_one_instruction_file_9
          one_instruction_proto_def analyze_opcode_mapping_def decode_instruction_def Let_def
          OPCODE_INFO_def OPCODE_INFO_items_def)
  show ?thesis
    using compare_opcodes_correct [OF parse_one_instruction_file_5 parse_one_instruction_file_9]
      ev
    by (simp add: parse_one_instruction_file_5 parse_one_instruction_file_9)
qed

section \<open>The cipher\<close>

abbreviation keyed :: "bytes \<Rightarrow> bytes \<Rightarrow> nat \<Rightarrow> byte" where
  "keyed key code_data j \<equiv> code_data ! j XOR key ! (j mod length key)"

lemma upt_4: "i < n \<Longrightarrow> [i..<min (i + 4) n]
   = i # (if i + 1 < n then (i + 1) # (if i + 2 < n then (i + 2) # (if i + 3 < n then [i + 3] else []) else []) else [])"
  by (auto simp: upt_rec [of i] upt_rec [of "Suc i"] upt_rec [of "Suc (Suc i)"]
        upt_rec [of "Suc (Suc (Suc i))"] min_def)

lemma xor_group_4:
  assumes "inst_idx < length code_data"
  shows "xor_group key code_data inst_idx [0, 1, 2, 3]
           = map (keyed key code_data) [inst_idx..<min (inst_idx + 4) (length code_data)]"
  using assms by (simp add: upt_4 add.commute)

lemma xor_groups_map:
  "xor_groups key code_data inst_idx
     = map (keyed key code_data) [inst_idx..<length code_data]"
proof (induction key code_data inst_idx rule: xor_groups.induct)
  case (1 key code_data inst_idx)
  show ?case
  proof (cases "inst_idx < length code_data")
    case False
    then show ?thesis by (subst xor_groups.simps) simp
  next
    case True
    have split: "[inst_idx..<length code_data]
        = [inst_idx..<min (inst_idx + 4) (length code_data)]
          @ [min (inst_idx + 4) (length code_data)..<length code_data]"
      using True upt_add_eq_append [of inst_idx "min (inst_idx + 4) (length code_data)"
          "length code_data - min (inst_idx + 4) (length code_data)"]
      by simp
    have rest: "xor_groups key code_data (inst_idx + 4)
        = map (keyed key code_data) [min (inst_idx + 4) (length code_data)..<length code_data]"
      using "1.IH" [OF True] by (simp add: min_def)
    show ?thesis
      by (subst xor_groups.simps, subst split) (simp only: True if_True xor_group_4 [OF True] rest map_append)
  qed
qed

lemma length_xor_groups: "length (xor_groups key code_data 0) = length code_data"
  by (simp add: xor_groups_map)

lemma xor_groups_involution: "xor_groups key (xor_groups key code_data 0) 0 = code_data"
proof -
  have "xor_groups key (xor_groups key code_data 0) 0
          = map (\<lambda>j. code_data ! j) [0..<length code_data]"
    by (simp add: xor_groups_map [of key _ 0] word_bw_assocs cong: map_cong)
  then show ?thesis by (simp add: map_nth)
qed

lemma split_size_bytes_resplit:
  "split_size_bytes acc raw_code = (sb, rest) \<Longrightarrow>
   \<exists>sb'. sb = acc @ sb' \<and> raw_code = sb' @ rest
         \<and> (\<forall>acc2 x. length x = length rest \<longrightarrow> split_size_bytes acc2 (sb' @ x) = (acc2 @ sb', x))"
proof (induction raw_code arbitrary: acc)
  case Nil
  then show ?case by auto
next
  case (Cons b raw_code)
  show ?case
  proof (cases "unat b AND 0x80 \<noteq> 0")
    case True
    with Cons.prems have "sb = acc @ [b]" "rest = raw_code" by (auto simp: Let_def)
    then show ?thesis using True by (intro exI [of _ "[b]"]) (simp add: Let_def)
  next
    case False
    with Cons.prems have "split_size_bytes (acc @ [b]) raw_code = (sb, rest)"
      by (simp add: Let_def)
    from Cons.IH [OF this] obtain sb' where
      a: "sb = (acc @ [b]) @ sb'" and b: "raw_code = sb' @ rest"
      and c: "\<forall>acc2 x. length x = length rest \<longrightarrow> split_size_bytes acc2 (sb' @ x) = (acc2 @ sb', x)"
      by blast
    show ?thesis
      using a b c False by (intro exI [of _ "b # sb'"]) (simp add: Let_def)
  qed
qed

lemma split_size_bytes_again:
  assumes "split_size_bytes [] raw_code = (sb, rest)" and "length x = length rest"
  shows "raw_code = sb @ rest" and "split_size_bytes [] (sb @ x) = (sb, x)"
  using split_size_bytes_resplit [OF assms(1)] assms(2) by auto

text \<open>The change that one call makes to the fields of one node.\<close>

definition cipher_node :: "bytes \<Rightarrow> proto_fields \<Rightarrow> proto_fields" where
  "cipher_node key p =
     (if ori p \<noteq> [] \<and> map_of (ori p) ''code'' \<noteq> None
      then (case split_size_bytes [] (the (map_of (ori p) ''code'')) of
              (size_bytes, actual) \<Rightarrow>
                p\<lparr>ori := AList.update ''code'' (size_bytes @ xor_groups key actual 0) (ori p)\<rparr>)
      else p)"

lemma cipher_node_involution: "cipher_node key (cipher_node key p) = p"
proof (cases "ori p \<noteq> [] \<and> map_of (ori p) ''code'' \<noteq> None")
  case False
  then show ?thesis by (auto simp: cipher_node_def)
next
  case True
  then obtain raw_code where rc: "map_of (ori p) ''code'' = Some raw_code" by auto
  obtain sb rest where sp: "split_size_bytes [] raw_code = (sb, rest)"
    by (cases "split_size_bytes [] raw_code")
  let ?x = "xor_groups key rest 0"
  have len: "length ?x = length rest" by (rule length_xor_groups)
  have raw: "raw_code = sb @ rest" and again: "split_size_bytes [] (sb @ ?x) = (sb, ?x)"
    using split_size_bytes_again [OF sp len] by auto
  have step: "cipher_node key p = p\<lparr>ori := AList.update ''code'' (sb @ ?x) (ori p)\<rparr>"
    using True by (simp add: cipher_node_def rc sp)
  have restore: "AList.update ''code'' (sb @ rest) (ori p) = ori p"
    using rc raw by (simp add: update_triv)
  show ?thesis
    unfolding step
    by (simp add: cipher_node_def update_conv' again xor_groups_involution restore)
qed

fun cipher_tree :: "bytes \<Rightarrow> Proto \<Rightarrow> Proto" where
  "cipher_tree key (Proto p subs) = Proto (cipher_node key p) (map (cipher_tree key) subs)"

lemma cipher_tree_involution: "cipher_tree key (cipher_tree key T) = T"
proof (induction T)
  case (Proto p subs)
  have "map (cipher_tree key \<circ> cipher_tree key) subs = subs"
    using Proto.IH by (induction subs) simp_all
  then show ?case by (simp add: cipher_node_involution)
qed

lemma encrypt_code_data_keyed:
  "encryption_key st = Some key \<Longrightarrow> key \<noteq> [] \<Longrightarrow>
   encrypt_code_data st d = Inr (xor_groups key d 0)"
  by (simp add: encrypt_code_data_def)

lemma decrypt_code_data_keyed:
  "encryption_key st = Some key \<Longrightarrow> key \<noteq> [] \<Longrightarrow>
   decrypt_code_data st d = Inr (xor_groups key d 0)"
  by (simp add: decrypt_code_data_def)

lemma encrypt_proto_code_tree:
  assumes m: "encrypt_mode st" and k: "encryption_key st = Some key" and ne: "key \<noteq> []"
  shows "encrypt_proto_code st T = Inr (cipher_tree key T)"
proof (induction T)
  case (Proto p subs)
  have subs: "encrypt_sub_protos st subs = Inr (map (cipher_tree key) subs)"
    using Proto.IH by (induction subs) simp_all
  have g: "\<not> (\<not> encrypt_mode st \<or> key_falsy (encryption_key st))"
    using m k ne by (simp add: key_falsy_def)
  show ?case
    using g by (auto simp: subs cipher_node_def encrypt_code_data_keyed [OF k ne]
                  split: prod.splits)
qed

lemma decrypt_proto_code_tree:
  assumes m: "encrypt_mode st" and k: "encryption_key st = Some key" and ne: "key \<noteq> []"
  shows "decrypt_proto_code st T = Inr (cipher_tree key T)"
proof (induction T)
  case (Proto p subs)
  have subs: "decrypt_sub_protos st subs = Inr (map (cipher_tree key) subs)"
    using Proto.IH by (induction subs) simp_all
  have g: "\<not> (\<not> encrypt_mode st \<or> key_falsy (encryption_key st))"
    using m k ne by (simp add: key_falsy_def)
  show ?case
    using g by (auto simp: subs cipher_node_def decrypt_code_data_keyed [OF k ne]
                  split: prod.splits)
qed

text \<open>
  C2.  With a non-empty key set by \<open>set_encryption_key\<close>, the tree-wide transform succeeds
  on every tree, \<open>encrypt_proto_code\<close> and \<open>decrypt_proto_code\<close> compute the same tree, and
  applying either of them to the result gives the original tree back: every captured
  instruction-stream span and every other field.
\<close>

theorem cipher_involution:
  assumes "key \<noteq> []" and "st = set_encryption_key st0 key"
  shows "\<exists>T'. encrypt_proto_code st T = Inr T' \<and> decrypt_proto_code st T = Inr T'
             \<and> decrypt_proto_code st T' = Inr T \<and> encrypt_proto_code st T' = Inr T"
proof -
  have m: "encrypt_mode st" and k: "encryption_key st = Some key"
    using assms(2) by (simp_all add: set_encryption_key_def)
  show ?thesis
    by (intro exI [of _ "cipher_tree key T"])
       (simp add: encrypt_proto_code_tree [OF m k assms(1)]
          decrypt_proto_code_tree [OF m k assms(1)] cipher_tree_involution)
qed

theorem cipher_involution_witness:
  "[0x61, 0x62] \<noteq> ([] :: bytes)
   \<and> encrypt_proto_code (set_encryption_key init_cipher_state [0x61, 0x62]) example_tree
        = Inr example_tree_encrypted
   \<and> decrypt_proto_code (set_encryption_key init_cipher_state [0x61, 0x62]) example_tree_encrypted
        = Inr example_tree"
proof -
  let ?st = "set_encryption_key init_cipher_state [0x61, 0x62]"
  have e: "encrypt_proto_code ?st example_tree = Inr example_tree_encrypted"
    by (simp add: example_tree_def example_tree_encrypted_def example_node_def
          set_encryption_key_def init_cipher_state_def key_falsy_def encrypt_code_data_def
          new_proto_fields_def post_init_ori_def xor_groups.simps
          flip: numeral_2_eq_2)
  obtain T' where "encrypt_proto_code ?st example_tree = Inr T'"
    and "decrypt_proto_code ?st T' = Inr example_tree"
    using cipher_involution [of "[0x61, 0x62]" ?st init_cipher_state example_tree] by auto
  with e show ?thesis by simp
qed

text \<open>
  C9, as the code has it.  When the key is missing or empty, or the mode is off, the
  tree-wide transform returns without an error and leaves the tree as it is; the failure
  for a missing or empty key exists only one level down, in \<open>encrypt_code_data\<close> and
  \<open>decrypt_code_data\<close>, which the tree-wide transform does not reach in that case.
\<close>

theorem transform_without_key:
  assumes "key_falsy (encryption_key st) \<or> \<not> encrypt_mode st"
  shows "encrypt_proto_code st T = Inr T \<and> decrypt_proto_code st T = Inr T
       \<and> (key_falsy (encryption_key st) \<longrightarrow>
            encrypt_code_data st d = Inl KeyNotSet \<and> decrypt_code_data st d = Inl KeyNotSet)"
proof -
  have "encrypt_proto_code st T = Inr T" using assms by (cases T) auto
  moreover have "decrypt_proto_code st T = Inr T" using assms by (cases T) auto
  moreover have "key_falsy (encryption_key st) \<longrightarrow>
            encrypt_code_data st d = Inl KeyNotSet \<and> decrypt_code_data st d = Inl KeyNotSet"
    by (auto simp: key_falsy_def encrypt_code_data_def decrypt_code_data_def split: option.splits)
  ultimately show ?thesis by blast
qed

theorem transform_without_key_witness:
  "key_falsy (encryption_key (set_encryption_key init_cipher_state []))
   \<and> encrypt_proto_code (set_encryption_key init_cipher_state []) example_tree = Inr example_tree
   \<and> encrypt_code_data (set_encryption_key init_cipher_state []) [0x01] = Inl KeyNotSet"
  using transform_without_key [of "set_encryption_key init_cipher_state []" example_tree "[0x01]"]
  by (simp add: key_falsy_def set_encryption_key_def)

theorem transform_empty_key_counterexample:
  "encrypt_proto_code (set_encryption_key init_cipher_state []) example_tree = Inr example_tree
   \<and> decrypt_proto_code init_cipher_state example_tree = Inr example_tree"
  by (simp add: example_tree_def set_encryption_key_def init_cipher_state_def key_falsy_def)

section \<open>Reading back what the writer wrote\<close>

text \<open>
  Each reading function, run on the bytes that the matching writing function produced,
  consumes exactly those bytes and returns the value that was written.  The lemmas go from
  the \<open>struct\<close> formats and the UTF-8 codec up to whole groups and whole prototypes.
\<close>

lemma read_size_with_raw_loop_eq:
  "read_size_with_raw_loop x rw f =
     (case read_size_loop x f of
        Inl e \<Rightarrow> Inl e
      | Inr (v, f') \<Rightarrow> Inr ((v, rw @ take (length f - length f') f), f'))"
proof (induction f arbitrary: x rw)
  case Nil
  then show ?case by simp
next
  case (Cons b f)
  have le: "\<And>x v f'. read_size_loop x f = Inr (v, f') \<Longrightarrow> length f' \<le> length f"
  proof -
    fix x v f' show "read_size_loop x f = Inr (v, f') \<Longrightarrow> length f' \<le> length f"
      by (induction f arbitrary: x) (auto simp: Let_def split: if_splits intro: le_SucI)
  qed
  show ?case
    by (auto simp: Let_def Cons.IH Suc_diff_le dest!: le split: sum.splits)
qed

lemma read_size_with_raw_write_size:
  assumes "v < 2 ^ 64"
  shows "read_size_with_raw (write_size v @ f) = Inr ((v, write_size v), f)"
  using read_size_write_size [OF assms, of f]
  by (simp add: read_size_with_raw_def read_size_def read_size_with_raw_loop_eq)

lemma le_bytes_Suc: "le_bytes (Suc n) v = of_nat v # le_bytes n (v div 256)"
proof -
  have "[0..<Suc n] = 0 # map Suc [0..<n]"
    by (simp add: upt_conv_Cons map_Suc_upt del: upt_Suc)
  then have "le_bytes (Suc n) v = of_nat (v div 256 ^ 0) # map ((\<lambda>i. of_nat (v div 256 ^ i)) \<circ> Suc) [0..<n]"
    unfolding le_bytes_def by (simp del: upt_Suc)
  moreover have "map ((\<lambda>i. of_nat (v div 256 ^ i) :: byte) \<circ> Suc) [0..<n] = le_bytes n (v div 256)"
    unfolding le_bytes_def by (rule map_cong) (simp_all add: div_mult2_eq)
  ultimately show ?thesis by simp
qed

lemma length_le_bytes [simp]: "length (le_bytes n v) = n"
  by (simp add: le_bytes_def)

lemma le_nat_Cons: "le_nat (b # bs) = unat b + 256 * le_nat bs"
  by (simp add: le_nat_def)

lemma le_nat_le_bytes: "le_nat (le_bytes n v) = v mod 256 ^ n"
proof (induction n arbitrary: v)
  case 0
  then show ?case by (simp add: le_bytes_def le_nat_def)
next
  case (Suc n)
  have "unat (of_nat v :: byte) = v mod 256" by (simp add: unat_of_nat)
  then show ?case
    by (simp add: le_bytes_Suc le_nat_Cons Suc.IH mod_mult2_eq)
qed

lemma unpack_I_pack: "v < 2 ^ 32 \<Longrightarrow> unpack_I (le_bytes 4 v) = Inr v"
  by (simp add: unpack_I_def le_nat_le_bytes)

lemma unpack_d_pack: "unpack_d (pack_d w) = Inr w"
proof -
  have "unat w < 2 ^ 64" using unsigned_less [of w, where 'a = nat] by simp
  then have "unat w mod 256 ^ 8 = unat w" by simp
  then show ?thesis by (simp add: unpack_d_def pack_d_def le_nat_le_bytes)
qed

lemma unpack_q_pack:
  assumes "- (2 ^ 63) \<le> i" "i < 2 ^ 63"
  shows "unpack_q (le_bytes 8 (nat (i mod 2 ^ 64))) = Inr i"
proof -
  define u where "u = nat (i mod 2 ^ 64)"
  have iu: "int u = i mod 2 ^ 64" by (simp add: u_def)
  have "int u < 2 ^ 64" unfolding iu by simp
  then have u: "u < 2 ^ 64" by (simp add: nat_less_iff flip: of_nat_less_iff)
  have p8: "(256::nat) ^ 8 = 2 ^ 64" by simp
  have m: "u mod 256 ^ 8 = u" unfolding p8 using u by (rule mod_less)
  have ln: "le_nat (le_bytes 8 u) = u" by (simp only: le_nat_le_bytes m)
  have big: "2 ^ 63 \<le> u \<longleftrightarrow> (2::int) ^ 63 \<le> int u"
    by (metis of_nat_le_iff of_nat_numeral of_nat_power)
  show ?thesis
  proof (cases "0 \<le> i")
    case True
    have "i mod 2 ^ 64 = i" using True assms by (intro mod_pos_pos_trivial) simp_all
    then have "int u = i" by (simp add: iu)
    then show ?thesis using assms unfolding u_def [symmetric]
      by (simp add: unpack_q_def ln big)
  next
    case False
    have "(i + 2 ^ 64) mod 2 ^ 64 = i + 2 ^ 64"
      using False assms by (intro mod_pos_pos_trivial) simp_all
    then have "i mod 2 ^ 64 = i + 2 ^ 64" by simp
    then have "int u = i + 2 ^ 64" by (simp add: iu)
    then show ?thesis using assms unfolding u_def [symmetric]
      by (simp add: unpack_q_def ln big)
  qed
qed

lemma utf8_roundtrip_1:
  assumes "c < 0x80"
  shows "utf8_decode_replace (c # r) = c # utf8_decode_replace r"
  using assms by simp

lemma utf8_roundtrip_2:
  assumes "0x80 \<le> c" "c < 0x800"
  shows "utf8_decode_replace ((0xC0 + c div 64) # (0x80 + c mod 64) # r) = c # utf8_decode_replace r"
proof -
  define a where "a = c div 64"
  define b where "b = c mod 64"
  have c: "c = a * 64 + b" by (simp add: a_def b_def)
  have b: "b < 64" by (simp add: b_def)
  have a: "2 \<le> a" "a < 32" using assms unfolding a_def by simp_all
  show ?thesis
    unfolding a_def [symmetric] b_def [symmetric]
    using a b by (simp add: is_cont_def c)
qed

lemma utf8_roundtrip_3:
  assumes "0x800 \<le> c" "c < 0x10000" "\<not> (0xD800 \<le> c \<and> c \<le> 0xDFFF)"
  shows "utf8_decode_replace ((0xE0 + c div 4096) # (0x80 + c div 64 mod 64) # (0x80 + c mod 64) # r)
           = c # utf8_decode_replace r"
proof -
  define a where "a = c div 4096"
  define m where "m = c div 64 mod 64"
  define b where "b = c mod 64"
  have "c = c div 64 * 64 + b" by (simp add: b_def)
  moreover have "c div 64 = c div 64 div 64 * 64 + m" by (simp add: m_def)
  moreover have "c div 64 div 64 = a" by (simp add: a_def div_mult2_eq)
  ultimately have c: "c = a * 4096 + m * 64 + b" by simp
  have b: "b < 64" by (simp add: b_def)
  have m: "m < 64" by (simp add: m_def)
  have a: "a < 16" using assms unfolding a_def by simp
  have e0: "a = 0 \<Longrightarrow> 32 \<le> m" using assms(1) b m unfolding c by simp
  have ed: "a = 13 \<Longrightarrow> m < 32" using assms(3) b m unfolding c by simp
  show ?thesis
    unfolding a_def [symmetric] b_def [symmetric] m_def [symmetric]
    using a b m e0 ed by (auto simp: is_cont_def second_ok_def c)
qed

lemma utf8_roundtrip_4:
  assumes "0x10000 \<le> c" "c \<le> 0x10FFFF"
  shows "utf8_decode_replace ((0xF0 + c div 262144) # (0x80 + c div 4096 mod 64)
            # (0x80 + c div 64 mod 64) # (0x80 + c mod 64) # r)
           = c # utf8_decode_replace r"
proof -
  define a where "a = c div 262144"
  define n where "n = c div 4096 mod 64"
  define m where "m = c div 64 mod 64"
  define b where "b = c mod 64"
  have "c = c div 64 * 64 + b" by (simp add: b_def)
  moreover have "c div 64 = c div 64 div 64 * 64 + m" by (simp add: m_def)
  moreover have "c div 64 div 64 = c div 4096" by (simp add: div_mult2_eq)
  moreover have "c div 4096 = c div 4096 div 64 * 64 + n" by (simp add: n_def)
  moreover have "c div 4096 div 64 = a" by (simp add: a_def div_mult2_eq)
  ultimately have c: "c = a * 262144 + n * 4096 + m * 64 + b" by simp
  have b: "b < 64" by (simp add: b_def)
  have m: "m < 64" by (simp add: m_def)
  have n: "n < 64" by (simp add: n_def)
  have a: "a \<le> 4" using assms unfolding a_def by simp
  have f0: "a = 0 \<Longrightarrow> 16 \<le> n" using assms(1) b m n unfolding c by simp
  have f4: "a = 4 \<Longrightarrow> n < 16" using assms(2) b m n unfolding c by simp
  show ?thesis
    unfolding a_def [symmetric] b_def [symmetric] m_def [symmetric] n_def [symmetric]
    using a b m n f0 f4 by (auto simp: is_cont_def second_ok_def c)
qed

lemma mod64_lt: "(x::nat) mod 64 < 128"
proof -
  have "x mod 64 < 64" by simp
  then show ?thesis by linarith
qed

lemma utf8_char_roundtrip:
  assumes "c \<le> 0x10FFFF" and "utf8_encode_char c = Inr bs"
  shows "utf8_decode_replace (bs @ r) = c # utf8_decode_replace r"
    and "\<forall>b \<in> set bs. b < 256" and "length bs \<le> 4"
proof -
  consider "c < 0x80" | "0x80 \<le> c" "c < 0x800"
    | "0x800 \<le> c" "c < 0x10000" "\<not> (0xD800 \<le> c \<and> c \<le> 0xDFFF)"
    | "0x10000 \<le> c"
    using assms(2) by (auto simp: utf8_encode_char_def split: if_splits)
  then have "utf8_decode_replace (bs @ r) = c # utf8_decode_replace r
      \<and> (\<forall>b \<in> set bs. b < 256) \<and> length bs \<le> 4"
  proof cases
    case 1
    then have bs: "bs = [c]" using assms(2) by (auto simp: utf8_encode_char_def)
    have "utf8_decode_replace (bs @ r) = c # utf8_decode_replace r"
      by (simp only: bs append.simps utf8_roundtrip_1 [OF 1])
    moreover have "\<forall>b \<in> set bs. b < 256" using 1 by (simp add: bs)
    moreover have "length bs \<le> 4" by (simp add: bs)
    ultimately show ?thesis by blast
  next
    case 2
    then have bs: "bs = [0xC0 + c div 64, 0x80 + c mod 64]"
      using assms(2) by (auto simp: utf8_encode_char_def)
    have "c div 64 < 32" using 2 by simp
    moreover have "c mod 64 < 64" by simp
    ultimately have "\<forall>b \<in> set bs. b < 256" by (simp add: bs mod64_lt)
    moreover have "utf8_decode_replace (bs @ r) = c # utf8_decode_replace r"
      by (simp only: bs append.simps utf8_roundtrip_2 [OF 2])
    moreover have "length bs \<le> 4" by (simp add: bs)
    ultimately show ?thesis by blast
  next
    case 3
    then have bs: "bs = [0xE0 + c div 4096, 0x80 + c div 64 mod 64, 0x80 + c mod 64]"
      using assms(2) by (auto simp: utf8_encode_char_def)
    have "c div 4096 < 16" using 3 by simp
    moreover have "c mod 64 < 64" "c div 64 mod 64 < 64" by simp_all
    ultimately have "\<forall>b \<in> set bs. b < 256" by (simp add: bs mod64_lt)
    moreover have "utf8_decode_replace (bs @ r) = c # utf8_decode_replace r"
      by (simp only: bs append.simps utf8_roundtrip_3 [OF 3])
    moreover have "length bs \<le> 4" by (simp add: bs)
    ultimately show ?thesis by blast
  next
    case 4
    then have bs: "bs = [0xF0 + c div 262144, 0x80 + c div 4096 mod 64, 0x80 + c div 64 mod 64,
                         0x80 + c mod 64]"
      using assms(2) by (auto simp: utf8_encode_char_def)
    have "c div 262144 \<le> 4" using assms(1) by simp
    moreover have "c mod 64 < 64" "c div 64 mod 64 < 64" "c div 4096 mod 64 < 64" by simp_all
    ultimately have "\<forall>b \<in> set bs. b < 256" by (simp add: bs mod64_lt)
    moreover have "utf8_decode_replace (bs @ r) = c # utf8_decode_replace r"
      by (simp only: bs append.simps utf8_roundtrip_4 [OF 4 assms(1)])
    moreover have "length bs \<le> 4" by (simp add: bs)
    ultimately show ?thesis by blast
  qed
  then show "utf8_decode_replace (bs @ r) = c # utf8_decode_replace r"
    and "\<forall>b \<in> set bs. b < 256" and "length bs \<le> 4" by auto
qed

lemma map_unat_of_nat: "\<forall>b \<in> set bs. b < 256 \<Longrightarrow> map unat (map of_nat bs :: bytes) = bs"
  by (induction bs) (simp_all add: unat_byte_of_nat)

lemma encode_utf8_roundtrip:
  assumes "encode_utf8 cs = Inr data" and "\<forall>c \<in> set cs. c \<le> 0x10FFFF"
  shows "decode_utf8 data = cs" and "length data \<le> 4 * length cs"
proof -
  have "utf8_decode_replace (map unat data) = cs \<and> length data \<le> 4 * length cs"
    using assms
  proof (induction cs arbitrary: data)
    case Nil
    then show ?case by simp
  next
    case (Cons c cs)
    from Cons.prems(1) obtain bs rest where
      bs: "utf8_encode_char c = Inr bs" and rest: "encode_utf8 cs = Inr rest"
      and data: "data = map of_nat bs @ rest"
      by (auto split: sum.splits)
    have c: "c \<le> 0x10FFFF" using Cons.prems(2) by simp
    note rt = utf8_char_roundtrip [OF c bs]
    have ih: "utf8_decode_replace (map unat rest) = cs" "length rest \<le> 4 * length cs"
      using Cons.IH [OF rest] Cons.prems(2) by simp_all
    have m: "map unat data = bs @ map unat rest"
      by (simp only: data map_append map_unat_of_nat [OF rt(2)])
    have "utf8_decode_replace (map unat data) = c # cs"
      by (simp only: m rt(1) ih(1))
    moreover have "length data \<le> 4 * length (c # cs)"
      using rt(3) ih(2) by (simp add: data)
    ultimately show ?case by blast
  qed
  then show "decode_utf8 data = cs" and "length data \<le> 4 * length cs"
    by (simp_all add: decode_utf8_def)
qed

lemma file_read_append: "length W = n \<Longrightarrow> file_read n (W @ f) = (W, f)"
  by (simp add: file_read_def)

lemma read_byte_with_raw_pack:
  "pack_B v = Inr W \<Longrightarrow> read_byte_with_raw (W @ f) = Inr ((v, W), f)"
  by (auto simp: pack_B_def read_byte_with_raw_def file_read_def unpack_B_def le_nat_def
        unat_byte_of_nat split: if_splits)

lemma read_instruction_pack:
  "pack_I v = Inr W \<Longrightarrow> read_instruction (W @ f) = Inr ((v, W), f)"
  by (auto simp: pack_I_def read_instruction_def file_read_def unpack_I_pack split: if_splits)

lemma read_number_with_raw_pack:
  "read_number_with_raw (pack_d w @ f) = Inr ((w, pack_d w), f)"
  using unpack_d_pack [of w]
  by (simp add: read_number_with_raw_def file_read_def pack_d_def)

lemma read_integer_with_raw_pack:
  assumes "pack_q i = Inr W"
  shows "read_integer_with_raw (W @ f) = Inr ((i, W), f)"
proof -
  have r: "- (2 ^ 63) \<le> i" "i < 2 ^ 63" and W: "W = le_bytes 8 (nat (i mod 2 ^ 64))"
    using assms by (auto simp: pack_q_def split: if_splits)
  have u: "unpack_q W = Inr i" unfolding W using r by (rule unpack_q_pack)
  have l: "length W = 8" by (simp add: W)
  show ?thesis by (simp add: read_integer_with_raw_def file_read_append [OF l] u)
qed

lemma read_string_write_string:
  assumes "write_string s = Inr W" and "opt_str_ok s"
  shows "read_string_with_raw (W @ f) = Inr ((s, W), f)"
proof (cases s)
  case None
  then have W: "W = write_size 0" using assms(1) by (simp add: write_string_def)
  show ?thesis
    using read_size_with_raw_write_size [of 0 f] by (simp add: W None read_string_with_raw_def)
next
  case (Some cs)
  then obtain data where enc: "encode_utf8 cs = Inr data"
    and W: "W = write_size (Suc (length data)) @ data"
    using assms(1) by (auto simp: write_string_def split: sum.splits)
  have ok: "\<forall>c \<in> set cs. c \<le> 0x10FFFF" and len: "4 * length cs + 1 < 2 ^ 64"
    using assms(2) by (simp_all add: Some opt_str_ok_def str_ok_def list_all_iff)
  note rt = encode_utf8_roundtrip [OF enc ok]
  have "Suc (length data) < 2 ^ 64" using rt(2) len by linarith
  then have rd: "read_size_with_raw (write_size (Suc (length data)) @ data @ f)
                  = Inr ((Suc (length data), write_size (Suc (length data))), data @ f)"
    by (rule read_size_with_raw_write_size)
  show ?thesis
    by (simp add: W Some read_string_with_raw_def rd file_read_def rt(1))
qed

lemma seq_w_Inr:
  "seq_w a b = Inr W \<longleftrightarrow> (\<exists>x y. a = Inr x \<and> b = Inr y \<and> W = x @ y)"
  by (auto simp: seq_w_def split: sum.splits)

lemma read_constant_write_constant:
  assumes "write_constant c = Inr W" and "const_ok c"
  shows "read_constant (W @ f) = Inr ((c, W), f)"
proof (cases c)
  case PyNone
  then have W: "W = [0]" using assms(1) by (simp add: write_constant_def pack_B_def VNIL_def)
  show ?thesis
    by (simp add: W PyNone read_constant_def read_byte_with_raw_def file_read_def unpack_B_def
          le_nat_def Let_def VNIL_def)
next
  case (PyBool b)
  then have W: "W = [if b then 33 else 17]"
    using assms(1) by (cases b) (simp_all add: write_constant_def pack_B_def VFALSE_def VTRUE_def)
  show ?thesis
    by (simp add: W PyBool read_constant_def read_byte_with_raw_def file_read_def unpack_B_def
          le_nat_def Let_def VNIL_def LUA_TNIL_def VFALSE_def VTRUE_def)
next
  case (PyFloat x)
  then have W: "W = 19 # pack_d x"
    using assms(1) by (simp add: write_constant_def pack_B_def VNUMFLT_def seq_w_def)
  show ?thesis
    by (simp add: W PyFloat read_constant_def read_byte_with_raw_def file_read_def unpack_B_def
          le_nat_def Let_def VNIL_def LUA_TNIL_def VFALSE_def VTRUE_def VNUMFLT_def
          read_number_with_raw_pack)
next
  case (PyInt i)
  then obtain V where V: "pack_q i = Inr V" and W: "W = 35 # V"
    using assms(1) by (auto simp: write_constant_def pack_B_def VNUMINT_def seq_w_def
                         split: sum.splits)
  show ?thesis
    by (simp add: W PyInt read_constant_def read_byte_with_raw_def file_read_def unpack_B_def
          le_nat_def Let_def VNIL_def LUA_TNIL_def VFALSE_def VTRUE_def VNUMFLT_def VNUMINT_def
          read_integer_with_raw_pack [OF V])
next
  case (PyStr s)
  then obtain V where V: "write_string (Some s) = Inr V"
    and W: "W = (if length s \<le> 40 then 20 else 36) # V"
    using assms(1) by (auto simp: write_constant_def pack_B_def VSHRSTR_def VLNGSTR_def seq_w_def
                         split: sum.splits if_splits)
  have ok: "opt_str_ok (Some s)" using assms(2) by (simp add: PyStr const_ok_def opt_str_ok_def)
  show ?thesis
    by (simp add: W PyStr read_constant_def read_byte_with_raw_def file_read_def unpack_B_def
          le_nat_def Let_def VNIL_def LUA_TNIL_def VFALSE_def VTRUE_def VNUMFLT_def VNUMINT_def
          VSHRSTR_def VLNGSTR_def read_string_write_string [OF V ok])
qed

lemma read_upvalue_write_upvalue:
  assumes "write_upvalue u = Inr W"
  shows "read_upvalue (W @ f) = Inr ((u\<lparr>upvalue_ori := W\<rparr>, W), f)"
proof -
  obtain a b c where a: "pack_B (instack u) = Inr a" and b: "pack_B (idx u) = Inr b"
    and c: "pack_B (kind u) = Inr c" and W: "W = a @ b @ c"
    using assms by (auto simp: write_upvalue_def seq_w_Inr)
  show ?thesis
    by (simp add: W read_upvalue_def read_byte_with_raw_pack [OF a] read_byte_with_raw_pack [OF b]
          read_byte_with_raw_pack [OF c] Let_def)
qed

lemma read_absline_write_absline:
  assumes "write_absline a = Inr W" and "size_ok (pc a)" and "size_ok (line a)"
  shows "read_absline (W @ f) = Inr ((a\<lparr>absline_ori := W\<rparr>, W), f)"
proof -
  have W: "W = write_size (pc a) @ write_size (line a)"
    using assms(1) by (simp add: write_absline_def)
  show ?thesis
    using assms(2,3)
    by (simp add: W read_absline_def size_ok_def read_size_with_raw_write_size Let_def)
qed

lemma read_locvar_write_locvar:
  assumes "write_locvar l = Inr W" and "opt_str_ok (varname l)"
    and "size_ok (startpc l)" and "size_ok (endpc l)"
  shows "read_locvar (W @ f) = Inr ((l\<lparr>locvar_ori := W\<rparr>, W), f)"
proof -
  obtain V where V: "write_string (varname l) = Inr V"
    and W: "W = V @ write_size (startpc l) @ write_size (endpc l)"
    using assms(1) by (auto simp: write_locvar_def seq_w_Inr)
  show ?thesis
    using assms(3,4)
    by (simp add: W read_locvar_def size_ok_def read_string_write_string [OF V assms(2)]
          read_size_with_raw_write_size Let_def)
qed

lemma read_group:
  assumes "write_each w xs = Inr W"
    and "\<And>x V f. x \<in> set xs \<Longrightarrow> w x = Inr V \<Longrightarrow> rd (V @ f) = Inr ((nrm x, V), f)"
  shows "read_loop rd (length xs) acc rw (W @ f) = Inr ((acc @ map nrm xs, rw @ W), f)"
  using assms
proof (induction xs arbitrary: W acc rw)
  case Nil
  then show ?case by simp
next
  case (Cons x xs)
  from Cons.prems(1) obtain V W' where V: "w x = Inr V" and W': "write_each w xs = Inr W'"
    and W: "W = V @ W'"
    by (auto simp: seq_w_Inr)
  have a: "rd (V @ W' @ f) = Inr ((nrm x, V), W' @ f)"
    by (rule Cons.prems(2) [OF _ V]) simp
  have b: "read_loop rd (length xs) (acc @ [nrm x]) (rw @ V) (W' @ f)
             = Inr (((acc @ [nrm x]) @ map nrm xs, (rw @ V) @ W'), f)"
    by (rule Cons.IH [OF W']) (rule Cons.prems(2), simp_all)
  show ?case using a b by (simp add: W)
qed

lemma write_each_map:
  assumes "\<And>x. x \<in> set xs \<Longrightarrow> w (nrm x) = w x"
  shows "write_each w (map nrm xs) = write_each w xs"
  using assms by (induction xs) simp_all

lemma map_of_ori_nonempty [simp]:
  "(al \<noteq> [] \<and> map_of al k \<noteq> None) = (map_of al k \<noteq> None)"
  by (cases al) auto

lemma read_constants_write_constants:
  assumes "write_constants p = Inr W" and "size_ok (length (constants p))"
    and "list_all const_ok (constants p)"
  shows "read_constants q (W @ f)
           = Inr (q\<lparr>constants := constants p, ori := AList.update ''constants'' W (ori q)\<rparr>, f)"
proof -
  obtain V where V: "write_each write_constant (constants p) = Inr V"
    and W: "W = write_size (length (constants p)) @ V"
    using assms(1) by (auto simp: write_constants_def seq_w_Inr)
  have "read_loop read_constant (length (constants p)) [] (write_size (length (constants p)))
          (V @ f) = Inr (([] @ map id (constants p), write_size (length (constants p)) @ V), f)"
    using V
  proof (rule read_group)
    fix x V f assume "x \<in> set (constants p)" "write_constant x = Inr V"
    then show "read_constant (V @ f) = Inr ((id x, V), f)"
      using assms(3) by (simp add: read_constant_write_constant list_all_iff)
  qed
  then show ?thesis
    using assms(2)
    by (simp add: read_constants_def W size_ok_def read_size_with_raw_write_size)
qed

lemma read_upvalues_write_upvalues:
  assumes "write_upvalues p = Inr W" and "size_ok (length (upvalues p))"
  shows "read_upvalues q (W @ f)
           = Inr (q\<lparr>upvalues := map upvalue_read (upvalues p),
                    ori := AList.update ''upvalues'' W (ori q)\<rparr>, f)"
proof -
  obtain V where V: "write_each write_upvalue (upvalues p) = Inr V"
    and W: "W = write_size (length (upvalues p)) @ V"
    using assms(1) by (auto simp: write_upvalues_def seq_w_Inr)
  have "read_loop read_upvalue (length (upvalues p)) [] (write_size (length (upvalues p)))
          (V @ f) = Inr (([] @ map upvalue_read (upvalues p),
                         write_size (length (upvalues p)) @ V), f)"
    using V
  proof (rule read_group)
    fix x V f assume "x \<in> set (upvalues p)" "write_upvalue x = Inr V"
    then show "read_upvalue (V @ f) = Inr ((upvalue_read x, V), f)"
      by (simp add: read_upvalue_write_upvalue upvalue_read_def)
  qed
  then show ?thesis
    using assms(2)
    by (simp add: read_upvalues_def W size_ok_def read_size_with_raw_write_size)
qed

lemma write_upvalues_read:
  "upvalues q = map upvalue_read (upvalues p) \<Longrightarrow> write_upvalues q = write_upvalues p"
  by (simp add: write_upvalues_def write_each_map upvalue_read_def write_upvalue_def)

lemma read_size_with_raw_loop_prefix:
  "read_size_with_raw_loop x acc rw = Inr ((n, n_raw), payload) \<Longrightarrow>
     read_size_with_raw_loop x acc (rw @ f) = Inr ((n, n_raw), payload @ f)"
proof (induction rw arbitrary: x acc)
  case Nil
  then show ?case by simp
next
  case (Cons b rw)
  show ?case
  proof (cases "unat b AND 0x80 \<noteq> 0")
    case True
    then show ?thesis using Cons.prems by (auto simp: Let_def split: if_splits)
  next
    case False
    with Cons.prems have lim: "\<not> x \<ge> size_limit"
      and r: "read_size_with_raw_loop (push_bit 7 x OR (unat b AND 0x7f)) (acc @ [b]) rw
                = Inr ((n, n_raw), payload)"
      by (auto simp: Let_def split: if_splits)
    from Cons.IH [OF r] show ?thesis using lim False by (simp add: Let_def)
  qed
qed

lemma read_size_with_raw_loop_split:
  "read_size_with_raw_loop x acc rw = Inr ((n, n_raw), payload) \<Longrightarrow>
     acc @ rw = n_raw @ payload"
proof (induction rw arbitrary: x acc)
  case Nil
  then show ?case by simp
next
  case (Cons b rw)
  show ?case
  proof (cases "unat b AND 0x80 \<noteq> 0")
    case True
    then show ?thesis using Cons.prems by (auto simp: Let_def split: if_splits)
  next
    case False
    with Cons.prems have
      r: "read_size_with_raw_loop (push_bit 7 x OR (unat b AND 0x7f)) (acc @ [b]) rw
                = Inr ((n, n_raw), payload)"
      by (auto simp: Let_def split: if_splits)
    from Cons.IH [OF r] show ?thesis by simp
  qed
qed

lemma read_size_with_raw_prefix:
  assumes "read_size_with_raw rw = Inr ((n, n_raw), payload)"
  shows "read_size_with_raw (rw @ f) = Inr ((n, n_raw), payload @ f)"
    and "rw = n_raw @ payload"
proof -
  have a: "read_size_with_raw_loop 0 [] rw = Inr ((n, n_raw), payload)"
    using assms by (simp add: read_size_with_raw_def)
  from read_size_with_raw_loop_prefix [OF a, of f]
  show "read_size_with_raw (rw @ f) = Inr ((n, n_raw), payload @ f)"
    by (simp only: read_size_with_raw_def)
  from read_size_with_raw_loop_split [OF a] show "rw = n_raw @ payload" by simp
qed

lemma read_instructions_payload:
  "length payload = 4 * n \<Longrightarrow>
     \<exists>ws. read_loop read_instruction n acc rw (payload @ f) = Inr ((ws, rw @ payload), f)"
proof (induction n arbitrary: payload acc rw)
  case 0
  then show ?case by simp
next
  case (Suc n)
  define a where "a = take 4 payload"
  define b where "b = drop 4 payload"
  have p: "payload = a @ b" and la: "length a = 4" and lb: "length b = 4 * n"
    using Suc.prems by (simp_all add: a_def b_def)
  obtain ws where ws: "read_loop read_instruction n (acc @ [le_nat a]) (rw @ a) (b @ f)
                         = Inr ((ws, (rw @ a) @ b), f)"
    using Suc.IH [OF lb] by blast
  have "read_instruction (a @ b @ f) = Inr ((le_nat a, a), b @ f)"
    by (simp add: read_instruction_def file_read_append [OF la] unpack_I_def la)
  then show ?case using ws by (auto simp: p)
qed

lemma read_code_write_code:
  assumes "write_code p = Inr W"
    and "case map_of (ori p) ''code'' of
            None \<Rightarrow> size_ok (length (code p))
          | Some code_raw \<Rightarrow> code_group_ok code_raw"
  shows "\<exists>ws. read_code q (W @ f)
           = Inr (q\<lparr>code := ws, ori := AList.update ''code'' W (ori q)\<rparr>, f)"
proof (cases "map_of (ori p) ''code''")
  case None
  then obtain V where V: "write_each pack_I (code p) = Inr V"
    and W: "W = write_size (length (code p)) @ V"
    using assms(1) by (auto simp: write_code_def seq_w_Inr)
  have ok: "size_ok (length (code p))" using assms(2) None by simp
  have "read_loop read_instruction (length (code p)) [] (write_size (length (code p)))
          (V @ f) = Inr (([] @ map id (code p), write_size (length (code p)) @ V), f)"
    using V
  proof (rule read_group)
    fix x V f assume "x \<in> set (code p)" "pack_I x = Inr V"
    then show "read_instruction (V @ f) = Inr ((id x, V), f)"
      by (simp add: read_instruction_pack)
  qed
  then have "read_code q (W @ f)
       = Inr (q\<lparr>code := code p, ori := AList.update ''code'' W (ori q)\<rparr>, f)"
    using ok by (simp add: read_code_def W size_ok_def read_size_with_raw_write_size)
  then show ?thesis ..
next
  case (Some code_raw)
  then have W: "W = code_raw" using assms(1) by (cases "ori p") (auto simp: write_code_def)
  from assms(2) Some obtain n n_raw payload
    where r: "read_size_with_raw code_raw = Inr ((n, n_raw), payload)"
      and l: "length payload = 4 * n"
    by (auto simp: code_group_ok_def split: sum.splits)
  note pre = read_size_with_raw_prefix [OF r]
  obtain ws where ws: "read_loop read_instruction n [] n_raw (payload @ f)
                         = Inr ((ws, n_raw @ payload), f)"
    using read_instructions_payload [OF l] by blast
  have "read_code q (W @ f) = Inr (q\<lparr>code := ws, ori := AList.update ''code'' W (ori q)\<rparr>, f)"
    unfolding W read_code_def using ws by (simp add: pre(1) [of f] pre(2) [symmetric])
  then show ?thesis ..
qed

lemma read_debug_write_debug:
  assumes "write_debug p = Inr W"
    and "size_ok (length (lineinfo p))"
    and "size_ok (length (abslineinfo p))"
    and "list_all (\<lambda>a. size_ok (pc a) \<and> size_ok (line a)) (abslineinfo p)"
    and "size_ok (length (locvars p))"
    and "list_all (\<lambda>l. opt_str_ok (varname l) \<and> size_ok (startpc l) \<and> size_ok (endpc l))
            (locvars p)"
    and "size_ok (length (upvalue_names p))" and "list_all opt_str_ok (upvalue_names p)"
  shows "\<exists>o'. read_debug q (W @ f)
           = Inr (q\<lparr>lineinfo := lineinfo p, abslineinfo := map absline_read (abslineinfo p),
                    locvars := map locvar_read (locvars p),
                    upvalue_names := upvalue_names p, ori := o'\<rparr>, f)
         \<and> map_of o' ''source'' = map_of (ori q) ''source''
         \<and> map_of o' ''code'' = map_of (ori q) ''code''"
proof -
  obtain W1 W2 W3 W4 where
    W1: "write_each pack_B (lineinfo p) = Inr W1"
    and W2: "write_each write_absline (abslineinfo p) = Inr W2"
    and W3: "write_each write_locvar (locvars p) = Inr W3"
    and W4: "write_each write_string (upvalue_names p) = Inr W4"
    and W: "W = write_size (length (lineinfo p)) @ W1 @ write_size (length (abslineinfo p)) @ W2
              @ write_size (length (locvars p)) @ W3
              @ write_size (length (upvalue_names p)) @ W4"
    using assms(1) by (auto simp: write_debug_def seq_w_Inr)
  have r1: "read_loop read_byte_with_raw (length (lineinfo p)) [] rw (W1 @ g)
              = Inr (([] @ map id (lineinfo p), rw @ W1), g)" for rw g
    using W1
  proof (rule read_group)
    fix x V f assume "x \<in> set (lineinfo p)" "pack_B x = Inr V"
    then show "read_byte_with_raw (V @ f) = Inr ((id x, V), f)"
      by (simp add: read_byte_with_raw_pack)
  qed
  have r2: "read_loop read_absline (length (abslineinfo p)) [] rw (W2 @ g)
              = Inr (([] @ map absline_read (abslineinfo p), rw @ W2), g)" for rw g
    using W2
  proof (rule read_group)
    fix x V f assume "x \<in> set (abslineinfo p)" "write_absline x = Inr V"
    then show "read_absline (V @ f) = Inr ((absline_read x, V), f)"
      using assms(4) by (simp add: read_absline_write_absline absline_read_def list_all_iff)
  qed
  have r3: "read_loop read_locvar (length (locvars p)) [] rw (W3 @ g)
              = Inr (([] @ map locvar_read (locvars p), rw @ W3), g)" for rw g
    using W3
  proof (rule read_group)
    fix x V f assume "x \<in> set (locvars p)" "write_locvar x = Inr V"
    then show "read_locvar (V @ f) = Inr ((locvar_read x, V), f)"
      using assms(6) by (simp add: read_locvar_write_locvar locvar_read_def list_all_iff)
  qed
  have r4: "read_loop read_string_with_raw (length (upvalue_names p)) [] rw (W4 @ g)
              = Inr (([] @ map id (upvalue_names p), rw @ W4), g)" for rw g
    using W4
  proof (rule read_group)
    fix x V f assume "x \<in> set (upvalue_names p)" "write_string x = Inr V"
    then show "read_string_with_raw (V @ f) = Inr ((id x, V), f)"
      using assms(8) by (simp add: read_string_write_string list_all_iff)
  qed
  have s: "length (lineinfo p) < 2 ^ 64" "length (abslineinfo p) < 2 ^ 64"
    "length (locvars p) < 2 ^ 64" "length (upvalue_names p) < 2 ^ 64"
    using assms(2,3,5,7) by (simp_all add: size_ok_def)
  show ?thesis
    unfolding W read_debug_def
    apply (simp add: read_size_with_raw_write_size [OF s(1)]
          read_size_with_raw_write_size [OF s(2)]
          read_size_with_raw_write_size [OF s(3)] read_size_with_raw_write_size [OF s(4)]
          r1 r2 r3 r4 Let_def)
    apply (rule exI, intro conjI, rule refl)
     apply (simp_all add: update_conv')
    done
qed

lemma write_debug_read:
  assumes "lineinfo q = lineinfo p" and "abslineinfo q = map absline_read (abslineinfo p)"
    and "locvars q = map locvar_read (locvars p)" and "upvalue_names q = upvalue_names p"
  shows "write_debug q = write_debug p"
proof -
  have a: "write_each write_absline (map absline_read (abslineinfo p))
             = write_each write_absline (abslineinfo p)"
    by (rule write_each_map) (simp add: absline_read_def write_absline_def)
  have l: "write_each write_locvar (map locvar_read (locvars p))
             = write_each write_locvar (locvars p)"
    by (rule write_each_map) (simp add: locvar_read_def write_locvar_def)
  show ?thesis by (simp add: write_debug_def assms a l)
qed

lemma write_string_None: "write_string None = Inr [0x80]"
  by (simp add: write_string_def write_size_def)

lemma write_string_length:
  assumes "write_string (Some (c # cs)) = Inr W" and "str_ok (c # cs)"
  shows "length W > 1"
proof -
  obtain data where enc: "encode_utf8 (c # cs) = Inr data"
    and W: "W = write_size (Suc (length data)) @ data"
    using assms(1) by (auto simp: write_string_def split: sum.splits)
  have ok: "\<forall>x \<in> set (c # cs). x \<le> 0x10FFFF"
    using assms(2) by (simp add: str_ok_def list_all_iff)
  have "decode_utf8 data = c # cs" using enc ok by (rule encode_utf8_roundtrip(1))
  then have "data \<noteq> []" by (auto simp: decode_utf8_def)
  moreover have "write_size (Suc (length data)) \<noteq> []"
    by (simp add: write_size_pos)
  ultimately show ?thesis
    by (cases data; cases "write_size (Suc (length data))") (simp_all add: W)
qed

lemma write_source_reread:
  assumes "write_source m p = Inr Ws" and "source_ok m p"
  shows "\<exists>s. write_string s = Inr Ws \<and> opt_str_ok s \<and>
           (\<forall>q. source q = (if s = None then ps else s) \<longrightarrow>
                 map_of (ori q) ''source'' = Some Ws \<longrightarrow> write_source m q = Inr Ws)"
proof -
  have ok: "opt_str_ok (source p)" using assms(2) by (simp add: source_ok_def)
  have none: "write_string None = Inr Ws \<Longrightarrow> \<not> m \<Longrightarrow> ?thesis"
  proof -
    assume a: "write_string None = Inr Ws" and m: "\<not> m"
    then have W: "Ws = [0x80]" by (simp add: write_string_None)
    show ?thesis
      by (rule exI [of _ None]) (simp add: a opt_str_ok_def write_source_def m W Let_def)
  qed
  show ?thesis
  proof (cases m)
    case True
    then obtain cs where cs: "source p = Some cs" and w: "write_string (Some cs) = Inr Ws"
      using assms by (auto simp: source_ok_def write_source_def)
    show ?thesis
      using ok cs w True by (intro exI [of _ "Some cs"]) (simp add: write_source_def)
  next
    case False
    show ?thesis
    proof (cases "map_of (ori p) ''source''")
      case None
      then have "write_string None = Inr Ws"
        using assms(1) False by (simp add: write_source_def)
      then show ?thesis using False by (rule none)
    next
      case (Some source_raw)
      then have ne: "ori p \<noteq> []" by auto
      show ?thesis
      proof (cases "length source_raw \<le> 1")
        case True
        then have "write_string None = Inr Ws"
          using assms(1) False Some ne by (simp add: write_source_def Let_def)
        then show ?thesis using False by (rule none)
      next
        case long: False
        then have w: "write_string (source p) = Inr Ws"
          using assms(1) False Some ne by (simp add: write_source_def Let_def)
        show ?thesis
        proof (cases "source p")
          case None
          then show ?thesis using w False none by simp
        next
          case (Some cs)
          have "cs \<noteq> []"
            using assms(2) False long \<open>map_of (ori p) ''source'' = Some source_raw\<close> Some
            by (simp add: source_ok_def)
          then obtain c cs' where c: "cs = c # cs'" by (cases cs) auto
          have "length Ws > 1"
            using w ok write_string_length [of c cs' Ws] unfolding Some c opt_str_ok_def by simp
          then show ?thesis
            using w ok Some False
            by (intro exI [of _ "Some cs"]) (simp add: write_source_def Let_def)
        qed
      qed
    qed
  qed
qed

lemma read_proto_basic_written:
  assumes "write_string s = Inr Ws" and "opt_str_ok s"
    and "size_ok (linedefined p)" and "size_ok (lastlinedefined p)"
    and "pack_B (numparams p) = Inr a" and "pack_B (is_vararg p) = Inr b"
    and "pack_B (maxstacksize p) = Inr c"
  shows "\<exists>p0. read_proto_basic ps (Ws @ write_size (linedefined p)
                  @ write_size (lastlinedefined p) @ a @ b @ c @ f) = Inr (p0, f)
          \<and> source p0 = (if s = None then ps else s)
          \<and> map_of (ori p0) ''source'' = Some Ws
          \<and> linedefined p0 = linedefined p \<and> lastlinedefined p0 = lastlinedefined p
          \<and> numparams p0 = numparams p \<and> is_vararg p0 = is_vararg p
          \<and> maxstacksize p0 = maxstacksize p"
proof -
  have s: "linedefined p < 2 ^ 64" "lastlinedefined p < 2 ^ 64"
    using assms(3,4) by (simp_all add: size_ok_def)
  show ?thesis
    unfolding read_proto_basic_def
    by (simp add: read_string_write_string [OF assms(1,2)]
          read_size_with_raw_write_size [OF s(1)] read_size_with_raw_write_size [OF s(2)]
          read_byte_with_raw_pack [OF assms(5)] read_byte_with_raw_pack [OF assms(6)]
          read_byte_with_raw_pack [OF assms(7)] Let_def update_conv')
qed

lemma node_roundtrip:
  assumes ok: "node_ok m p" and pre: "write_proto_pre m p = Inr Wpre"
    and d: "write_debug p = Inr Wd"
  shows "\<exists>p1. read_proto_pre ps (Wpre @ f) = Inr (p1, f) \<and>
           (\<forall>n_raw g. \<exists>p'. read_debug (p1\<lparr>ori := AList.update ''protos'' n_raw (ori p1)\<rparr>)
                               (Wd @ g) = Inr (p', g)
                 \<and> write_proto_pre m p' = Inr Wpre \<and> write_debug p' = Inr Wd
                 \<and> length (upvalues p') = length (upvalues p))"
proof -
  from pre obtain Ws a b c Wc Wk Wu where
    ws: "write_source m p = Inr Ws"
    and a: "pack_B (numparams p) = Inr a" and b: "pack_B (is_vararg p) = Inr b"
    and c: "pack_B (maxstacksize p) = Inr c"
    and wc: "write_code p = Inr Wc" and wk: "write_constants p = Inr Wk"
    and wu: "write_upvalues p = Inr Wu"
    and Wpre: "Wpre = Ws @ write_size (linedefined p) @ write_size (lastlinedefined p)
                 @ a @ b @ c @ Wc @ Wk @ Wu"
    by (auto simp: write_proto_pre_def seq_w_Inr)
  from ok have so: "source_ok m p" and l1: "size_ok (linedefined p)"
    and l2: "size_ok (lastlinedefined p)"
    and co: "case map_of (ori p) ''code'' of None \<Rightarrow> size_ok (length (code p))
              | Some code_raw \<Rightarrow> code_group_ok code_raw"
    and k1: "size_ok (length (constants p))" and k2: "list_all const_ok (constants p)"
    and u1: "size_ok (length (upvalues p))"
    and d1: "size_ok (length (lineinfo p))"
    and d2: "size_ok (length (abslineinfo p))"
    and d3: "list_all (\<lambda>a. size_ok (pc a) \<and> size_ok (line a)) (abslineinfo p)"
    and d4: "size_ok (length (locvars p))"
    and d5: "list_all (\<lambda>l. opt_str_ok (varname l) \<and> size_ok (startpc l) \<and> size_ok (endpc l))
            (locvars p)"
    and d6: "size_ok (length (upvalue_names p))" and d7: "list_all opt_str_ok (upvalue_names p)"
    by (simp_all add: node_ok_def)
  from write_source_reread [OF ws so, of ps] obtain s where
    s1: "write_string s = Inr Ws" and s2: "opt_str_ok s"
    and s3: "\<And>q. source q = (if s = None then ps else s) \<Longrightarrow>
                 map_of (ori q) ''source'' = Some Ws \<Longrightarrow> write_source m q = Inr Ws"
    by blast
  from read_proto_basic_written [OF s1 s2 l1 l2 a b c, of ps "Wc @ Wk @ Wu @ f"]
  obtain p0 where
    r0: "read_proto_basic ps (Wpre @ f) = Inr (p0, Wc @ Wk @ Wu @ f)"
    and p0s: "source p0 = (if s = None then ps else s)"
    and p0o: "map_of (ori p0) ''source'' = Some Ws"
    and p0f: "linedefined p0 = linedefined p" "lastlinedefined p0 = lastlinedefined p"
      "numparams p0 = numparams p" "is_vararg p0 = is_vararg p"
      "maxstacksize p0 = maxstacksize p"
    unfolding Wpre by auto
  from read_code_write_code [OF wc co, of p0 "Wk @ Wu @ f"] obtain cws where
    r1: "read_code p0 (Wc @ Wk @ Wu @ f)
           = Inr (p0\<lparr>code := cws, ori := AList.update ''code'' Wc (ori p0)\<rparr>, Wk @ Wu @ f)"
    by blast
  define pa where "pa = p0\<lparr>code := cws, ori := AList.update ''code'' Wc (ori p0)\<rparr>"
  define pb where "pb = pa\<lparr>constants := constants p,
                             ori := AList.update ''constants'' Wk (ori pa)\<rparr>"
  define p1 where "p1 = pb\<lparr>upvalues := map upvalue_read (upvalues p),
                             ori := AList.update ''upvalues'' Wu (ori pb)\<rparr>"
  have r2: "read_constants pa (Wk @ Wu @ f) = Inr (pb, Wu @ f)"
    unfolding pb_def by (rule read_constants_write_constants [OF wk k1 k2])
  have r3: "read_upvalues pb (Wu @ f) = Inr (p1, f)"
    unfolding p1_def by (rule read_upvalues_write_upvalues [OF wu u1])
  have rp: "read_proto_pre ps (Wpre @ f) = Inr (p1, f)"
    using r0 r1 r2 r3 by (simp add: read_proto_pre_def pa_def)
  have p1_fields: "source p1 = (if s = None then ps else s)"
    "map_of (ori p1) ''source'' = Some Ws" "map_of (ori p1) ''code'' = Some Wc"
    "linedefined p1 = linedefined p" "lastlinedefined p1 = lastlinedefined p"
    "numparams p1 = numparams p" "is_vararg p1 = is_vararg p"
    "maxstacksize p1 = maxstacksize p" "constants p1 = constants p"
    "upvalues p1 = map upvalue_read (upvalues p)"
    using p0s p0o p0f by (simp_all add: p1_def pb_def pa_def update_conv')
  have "\<exists>p'. read_debug (p1\<lparr>ori := AList.update ''protos'' n_raw (ori p1)\<rparr>)
                               (Wd @ g) = Inr (p', g)
                 \<and> write_proto_pre m p' = Inr Wpre \<and> write_debug p' = Inr Wd
                 \<and> length (upvalues p') = length (upvalues p)" for n_raw g
  proof -
    define q where "q = p1\<lparr>ori := AList.update ''protos'' n_raw (ori p1)\<rparr>"
    from read_debug_write_debug [OF d d1 d2 d3 d4 d5 d6 d7, of q g] obtain o' where
      rd: "read_debug q (Wd @ g)
           = Inr (q\<lparr>lineinfo := lineinfo p, abslineinfo := map absline_read (abslineinfo p),
                    locvars := map locvar_read (locvars p),
                    upvalue_names := upvalue_names p, ori := o'\<rparr>, g)"
      and o1: "map_of o' ''source'' = map_of (ori q) ''source''"
      and o2: "map_of o' ''code'' = map_of (ori q) ''code''"
      by blast
    define p' where "p' = q\<lparr>lineinfo := lineinfo p,
                    abslineinfo := map absline_read (abslineinfo p),
                    locvars := map locvar_read (locvars p),
                    upvalue_names := upvalue_names p, ori := o'\<rparr>"
    have f': "source p' = (if s = None then ps else s)"
      "map_of (ori p') ''source'' = Some Ws" "map_of (ori p') ''code'' = Some Wc"
      "linedefined p' = linedefined p" "lastlinedefined p' = lastlinedefined p"
      "numparams p' = numparams p" "is_vararg p' = is_vararg p"
      "maxstacksize p' = maxstacksize p" "constants p' = constants p"
      "upvalues p' = map upvalue_read (upvalues p)"
      using p1_fields o1 o2 by (simp_all add: p'_def q_def update_conv')
    have w1: "write_source m p' = Inr Ws" using f'(1,2) by (rule s3)
    have ne: "ori p' \<noteq> []" using f'(3) by auto
    have w2: "write_code p' = Inr Wc" using f'(3) ne by (simp add: write_code_def)
    have w3: "write_constants p' = Inr Wk" using wk by (simp add: write_constants_def f'(9))
    have w4: "write_upvalues p' = Inr Wu"
      using wu write_upvalues_read [OF f'(10)] by simp
    have "write_proto_pre m p' = Inr Wpre"
      by (simp add: write_proto_pre_def w1 w2 w3 w4 f'(4-8) a b c seq_w_def Wpre)
    moreover have "write_debug p' = Inr Wd"
      using d write_debug_read [of p' p] by (simp add: p'_def)
    moreover have "length (upvalues p') = length (upvalues p)" by (simp add: f'(10))
    ultimately show ?thesis using rd unfolding q_def p'_def by blast
  qed
  with rp show ?thesis by blast
qed

lemma read_proto_write_proto:
  "canonical m T \<Longrightarrow> write_proto T m = Inr W \<Longrightarrow>
     \<exists>T'. read_proto ps (W @ f) = Inr (T', f) \<and> write_proto T' m = Inr W
         \<and> length (upvalues (fields_of T')) = length (upvalues (fields_of T))"
  "list_all (canonical False) subs \<Longrightarrow> write_sub_protos subs = Inr W \<Longrightarrow>
     \<exists>subs'. read_protos_loop (length subs) src acc (W @ f) = Inr (acc @ subs', f)
         \<and> write_sub_protos subs' = Inr W \<and> length subs' = length subs"
proof (induction T m and subs arbitrary: W ps f and W src acc f
       rule: write_proto_write_sub_protos.induct)
  case (1 p subs is_main_proto)
  from "1.prems"(2) obtain Wpre Wsubs Wd where
    pre: "write_proto_pre is_main_proto p = Inr Wpre"
    and ws: "write_sub_protos subs = Inr Wsubs"
    and d: "write_debug p = Inr Wd"
    and W: "W = Wpre @ write_size (length subs) @ Wsubs @ Wd"
    by (auto simp: seq_w_Inr)
  from "1.prems"(1) have ok: "node_ok is_main_proto p" and n: "length subs < 2 ^ 64"
    and cs: "list_all (canonical False) subs"
    by (simp_all add: size_ok_def)
  from node_roundtrip [OF ok pre d, of ps "write_size (length subs) @ Wsubs @ Wd @ f"]
  obtain p1 where
    r1: "read_proto_pre ps (W @ f) = Inr (p1, write_size (length subs) @ Wsubs @ Wd @ f)"
    and r4: "\<And>n_raw g. \<exists>p'. read_debug (p1\<lparr>ori := AList.update ''protos'' n_raw (ori p1)\<rparr>)
                               (Wd @ g) = Inr (p', g)
                 \<and> write_proto_pre is_main_proto p' = Inr Wpre \<and> write_debug p' = Inr Wd
                 \<and> length (upvalues p') = length (upvalues p)"
    unfolding W by auto
  have r2: "read_size_with_raw (write_size (length subs) @ Wsubs @ Wd @ f)
              = Inr ((length subs, write_size (length subs)), Wsubs @ Wd @ f)"
    using n by (rule read_size_with_raw_write_size)
  from "1.IH" [OF cs ws, of "source p1" "[]" "Wd @ f"] obtain subs' where
    r3: "read_protos_loop (length subs) (source p1) [] (Wsubs @ Wd @ f) = Inr (subs', Wd @ f)"
    and w3: "write_sub_protos subs' = Inr Wsubs" and l3: "length subs' = length subs"
    by auto
  from r4 [of "write_size (length subs)" f] obtain p' where
    rd: "read_debug (p1\<lparr>ori := AList.update ''protos'' (write_size (length subs)) (ori p1)\<rparr>)
           (Wd @ f) = Inr (p', f)"
    and wp: "write_proto_pre is_main_proto p' = Inr Wpre" and wd: "write_debug p' = Inr Wd"
    and lu: "length (upvalues p') = length (upvalues p)"
    by blast
  have "read_proto ps (W @ f) = Inr (Proto p' subs', f)"
    by (subst read_proto.simps) (simp add: r1 r2 r3 rd)
  moreover have "write_proto (Proto p' subs') is_main_proto = Inr W"
    by (simp add: wp wd w3 l3 W seq_w_def)
  ultimately show ?case using lu by auto
next
  case 2
  then show ?case by simp
next
  case (3 sub_proto rest)
  from "3.prems"(2) obtain W1 W2 where
    w1: "write_proto sub_proto False = Inr W1" and w2: "write_sub_protos rest = Inr W2"
    and W: "W = W1 @ W2"
    by (auto simp: seq_w_Inr)
  from "3.prems"(1) have c1: "canonical False sub_proto"
    and c2: "list_all (canonical False) rest"
    by simp_all
  from "3.IH"(1) [OF c1 w1, of src "W2 @ f"] obtain T' where
    r1: "read_proto src (W @ f) = Inr (T', W2 @ f)" and w1': "write_proto T' False = Inr W1"
    unfolding W by auto
  from "3.IH"(2) [OF c2 w2, of src "acc @ [T']" f] obtain subs' where
    r2: "read_protos_loop (length rest) src (acc @ [T']) (W2 @ f)
           = Inr ((acc @ [T']) @ subs', f)"
    and w2': "write_sub_protos subs' = Inr W2" and l: "length subs' = length rest"
    by auto
  have "read_protos_loop (length (sub_proto # rest)) src acc (W @ f)
          = Inr (acc @ (T' # subs'), f)"
    by (simp add: r1 r2)
  moreover have "write_sub_protos (T' # subs') = Inr W"
    by (simp add: w1' w2' W seq_w_def)
  ultimately show ?case using l by (intro exI [of _ "T' # subs'"]) simp
qed

lemma write_header_example: "write_header = Inr example_header"
  by (simp add: write_header_def seq_w_def pack_B_def pack_q_def pack_d_def LUA_SIGNATURE_def
        LUAC_VERSION_def LUAC_FORMAT_def LUAC_DATA_def LUAC_INT_def LUAC_NUM_def
        example_header_def le_bytes_def upt_rec)

lemma check_header_example: "check_header (example_header @ r) = Inr r"
  by (simp add: lua_eval example_header_def)



section \<open>Constants and the header\<close>

lemma read_constant_string_tags:
  "read_constant (0x14 # f) =
     (case read_string_with_raw f of
        Inl e \<Rightarrow> Inl e
      | Inr ((v, v_raw), f2) \<Rightarrow>
          Inr ((case v of None \<Rightarrow> PyNone | Some s \<Rightarrow> PyStr s, 0x14 # v_raw), f2))"
  "read_constant (0x24 # f) =
     (case read_string_with_raw f of
        Inl e \<Rightarrow> Inl e
      | Inr ((v, v_raw), f2) \<Rightarrow>
          Inr ((case v of None \<Rightarrow> PyNone | Some s \<Rightarrow> PyStr s, 0x24 # v_raw), f2))"
  by (simp_all add: read_constant_def read_byte_with_raw_def file_read_def unpack_B_def le_nat_def
        Let_def VNIL_def LUA_TNIL_def VFALSE_def VTRUE_def VNUMFLT_def VNUMINT_def VSHRSTR_def
        VLNGSTR_def split: sum.splits)

lemma write_size_small: "v < 128 \<Longrightarrow> write_size v = [of_nat (v + 128)]"
proof (cases "v = 0")
  case True
  then show ?thesis by (simp add: write_size_def)
next
  case False
  assume "v < 128"
  then have "v div 128 = 0" "v mod 128 = v" by simp_all
  moreover have "bytes_list_of 0 = []" by (subst bytes_list_of.simps) simp
  ultimately show ?thesis using False write_size_pos [of v] by simp
qed

lemma write_each_total:
  "write_each (\<lambda>x. Inr (g x)) xs = Inr (concat (map g xs))"
  by (induction xs) (simp_all add: seq_w_def)

lemma write_constant_PyStr:
  "write_constant (PyStr s) =
     (case write_string (Some s) of
        Inl e \<Rightarrow> Inl e
      | Inr body \<Rightarrow> Inr ((if length s \<le> 40 then 0x14 else 0x24) # body))"
  by (simp add: write_constant_def seq_w_def pack_B_def VSHRSTR_def VLNGSTR_def
        split: sum.splits)

lemma read_constant_stored:
  assumes "const_ok c" and "write_constant c = Inr W" and "t = 0x14 \<or> t = 0x24"
  shows "read_constant (stored_constant c t @ f) = Inr ((c, stored_constant c t), f)"
proof (cases "\<exists>s. c = PyStr s")
  case True
  then obtain s where c: "c = PyStr s" by blast
  obtain body where body: "write_string (Some s) = Inr body"
    using assms(2) unfolding c write_constant_PyStr by (auto split: sum.splits)
  have ok: "opt_str_ok (Some s)" using assms(1) by (simp add: c const_ok_def opt_str_ok_def)
  have st: "stored_constant (PyStr s) t' = t' # body" for t'
    by (simp add: stored_constant_def body)
  show ?thesis
    using assms(3) read_string_write_string [OF body ok, of f]
    by (auto simp: st c read_constant_string_tags)
next
  case False
  then have "stored_constant c t = W"
    using assms(2) by (cases c) (simp_all add: stored_constant_def)
  then show ?thesis using read_constant_write_constant [OF assms(2,1)] by simp
qed

lemma write_constant_stored:
  assumes "write_constant c = Inr W"
  shows "write_constant c
           = Inr (stored_constant c
                    (case c of PyStr s \<Rightarrow> if length s \<le> 40 then 0x14 else 0x24 | _ \<Rightarrow> t))"
proof (cases "\<exists>s. c = PyStr s")
  case True
  then obtain s where c: "c = PyStr s" by blast
  obtain body where body: "write_string (Some s) = Inr body"
    using assms unfolding c write_constant_PyStr by (auto split: sum.splits)
  show ?thesis by (simp add: c write_constant_PyStr body stored_constant_def)
next
  case False
  then show ?thesis using assms by (cases c) (simp_all add: stored_constant_def)
qed

lemma write_each_stored:
  assumes "\<forall>(c, t) \<in> set es. \<exists>W. write_constant c = Inr W"
  shows "write_each write_constant (map fst es)
           = Inr (concat (map (\<lambda>(c, t). stored_constant c
                    (case c of PyStr s \<Rightarrow> if length s \<le> 40 then 0x14 else 0x24 | _ \<Rightarrow> t)) es))"
  using assms
proof (induction es)
  case Nil
  then show ?case by simp
next
  case (Cons e es)
  obtain c t where e: "e = (c, t)" by (cases e)
  from Cons.prems obtain W where W: "write_constant c = Inr W" by (auto simp: e)
  have "write_each write_constant (map fst es)
           = Inr (concat (map (\<lambda>(c, t). stored_constant c
                    (case c of PyStr s \<Rightarrow> if length s \<le> 40 then 0x14 else 0x24 | _ \<Rightarrow> t)) es))"
    using Cons.prems by (intro Cons.IH) simp
  then show ?case
    using write_constant_stored [OF W, of t] by (simp add: e seq_w_def)
qed

text \<open>
  C10.  A constant table whose string constants are stored under either string tag, 20 or
  36, in any mix, is read by \<open>read_constants\<close> as the same list of constants whatever the
  tags are, and \<open>_write_constants\<close> writes the decoded table with every string under the
  tag that its own length selects: the short tag 20 when the string has at most 40 code
  points, the long tag 36 otherwise.  The other constants and the string bodies are written
  as they were stored, so the tag byte is the only thing decoding and re-encoding can
  change.  In the example a one-character string stored under tag 36 comes back under tag
  20, and a 41-character string stored under tag 20 comes back under tag 36.
\<close>

theorem string_constant_tag:
  assumes "size_ok (length es)"
    and "\<forall>(c, t) \<in> set es.
           const_ok c \<and> (\<exists>W. write_constant c = Inr W) \<and> (t = 0x14 \<or> t = 0x24)"
  shows "read_constants q
           (write_size (length es) @ concat (map (\<lambda>(c, t). stored_constant c t) es) @ f)
         = Inr (q\<lparr>constants := map fst es,
                  ori := AList.update ''constants''
                           (write_size (length es)
                              @ concat (map (\<lambda>(c, t). stored_constant c t) es)) (ori q)\<rparr>, f)
       \<and> write_constants (q\<lparr>constants := map fst es, ori := o'\<rparr>)
         = Inr (write_size (length es)
                  @ concat (map (\<lambda>(c, t). stored_constant c
                      (case c of PyStr s \<Rightarrow> if length s \<le> 40 then 0x14 else 0x24
                       | _ \<Rightarrow> t)) es))"
proof -
  let ?W = "concat (map (\<lambda>(c, t). stored_constant c t) es)"
  have we: "write_each (\<lambda>e. Inr (case e of (c, t) \<Rightarrow> stored_constant c t)) es = Inr ?W"
    by (rule write_each_total)
  have "read_loop read_constant (length es) [] (write_size (length es)) (?W @ f)
          = Inr (([] @ map fst es, write_size (length es) @ ?W), f)"
    using we
  proof (rule read_group)
    fix x V g
    assume x: "x \<in> set es" and V: "Inr (case x of (c, t) \<Rightarrow> stored_constant c t) = Inr V"
    obtain c t where e: "x = (c, t)" by (cases x)
    from assms(2) x obtain W where "const_ok c" "write_constant c = Inr W" "t = 0x14 \<or> t = 0x24"
      by (auto simp: e)
    then have "read_constant (stored_constant c t @ g) = Inr ((c, stored_constant c t), g)"
      by (rule read_constant_stored)
    then show "read_constant (V @ g) = Inr ((fst x, V), g)" using V by (simp add: e)
  qed
  then have a: "read_constants q (write_size (length es) @ ?W @ f)
         = Inr (q\<lparr>constants := map fst es,
                  ori := AList.update ''constants'' (write_size (length es) @ ?W) (ori q)\<rparr>, f)"
    using assms(1) by (simp add: read_constants_def size_ok_def read_size_with_raw_write_size)
  have "\<forall>(c, t) \<in> set es. \<exists>W. write_constant c = Inr W" using assms(2) by auto
  then have b: "write_constants (q\<lparr>constants := map fst es, ori := o'\<rparr>)
         = Inr (write_size (length es)
                  @ concat (map (\<lambda>(c, t). stored_constant c
                      (case c of PyStr s \<Rightarrow> if length s \<le> 40 then 0x14 else 0x24
                       | _ \<Rightarrow> t)) es))"
    by (simp add: write_constants_def write_each_stored seq_w_def)
  from a b show ?thesis by (rule conjI)
qed

theorem string_constant_tag_witness:
  "read_constants new_proto_fields
     ([0x82, 0x24, 0x82, 0x61, 0x14, 0xAA] @ replicate 41 0x61)
     = Inr (new_proto_fields\<lparr>constants := [PyStr [0x61], PyStr (replicate 41 0x61)],
              ori := AList.update ''constants''
                       ([0x82, 0x24, 0x82, 0x61, 0x14, 0xAA] @ replicate 41 0x61)
                       (ori new_proto_fields)\<rparr>, [])
   \<and> write_constants
         (new_proto_fields\<lparr>constants := [PyStr [0x61], PyStr (replicate 41 0x61)],
              ori := AList.update ''constants''
                       ([0x82, 0x24, 0x82, 0x61, 0x14, 0xAA] @ replicate 41 0x61)
                       (ori new_proto_fields)\<rparr>)
     = Inr ([0x82, 0x14, 0x82, 0x61, 0x24, 0xAA] @ replicate 41 0x61)"
proof -
  have e: "encode_utf8 (replicate n 0x61) = Inr (replicate n 0x61)" for n
    by (induction n) (simp_all add: utf8_encode_char_def)
  have s1: "write_string (Some [0x61]) = Inr [0x82, 0x61]"
    by (simp add: write_string_def utf8_encode_char_def write_size_small)
  have s2: "write_string (Some (replicate 41 0x61)) = Inr (0xAA # replicate 41 0x61)"
    by (simp add: write_string_def e write_size_small)
  have ok: "str_ok [0x61]" "str_ok (replicate 41 0x61)"
    by (simp_all add: str_ok_def list_all_iff)
  have w: "write_size (Suc (Suc 0)) = [0x82]"
    using write_size_small [of 2] by (simp add: numeral_2_eq_2)
  show ?thesis
    using string_constant_tag [of "[(PyStr [0x61], 0x24), (PyStr (replicate 41 0x61), 0x14)]"
        new_proto_fields "[]"
        "AList.update ''constants'' ([0x82, 0x24, 0x82, 0x61, 0x14, 0xAA] @ replicate 41 0x61)
                       (ori new_proto_fields)"]
    by (simp add: size_ok_def const_ok_def ok stored_constant_def s1 s2 w write_constant_PyStr)
qed

text \<open>
  C8 fails on the code: \<open>check_header\<close> reads the test integer and the test float and
  compares them with nothing.  A header whose sixteen test bytes are all zero is accepted,
  and the file parses to the same tree as with the reference values.
\<close>

theorem check_header_ignores_test_values:
  "check_header wrong_test_values_header = Inr []
   \<and> parse (wrong_test_values_header
             @ [0x00, 0x80, 0x80, 0x80, 0, 0, 2, 0x81, 5, 0, 0, 0, 0x80, 0x80, 0x80, 0x80, 0x80,
                0x80, 0x80])
       = Inr (one_instruction_proto 5 5)"
  by (simp add: lua_eval wrong_test_values_header_def one_instruction_proto_def)

section \<open>Writing a decoded file back\<close>

lemma write_size_0: "write_size 0 = [0x80]"
  by (simp add: write_size_def)

lemma write_size_1: "write_size (Suc 0) = [0x81]"
  using write_size_small [of 1] by simp

lemma write_one_instruction_proto:
  "write_luac_file (one_instruction_proto inst b) = Inr (rewritten_one_instruction_file b)"
  by (simp add: write_luac_file_def write_header_example one_instruction_proto_def
        rewritten_one_instruction_file_def write_proto_pre_def write_source_def write_string_def
        write_code_def write_constants_def write_upvalues_def write_debug_def pack_B_def
        seq_w_def write_size_0 write_size_1)

lemma write_size_300: "write_size 300 = [0x02, 0xAC]"
proof -
  have "bytes_list_of 2 = [2]"
    by (subst bytes_list_of.simps, simp, subst bytes_list_of.simps, simp add: drop_bit_eq_div)
  then show ?thesis using write_size_pos [of 300] by simp
qed

lemma write_example_written_tree:
  "write_luac_file example_written_tree = Inr example_written_file"
  by (simp add: write_luac_file_def write_header_example example_written_tree_def
        example_written_file_def example_node_def new_proto_fields_def post_init_ori_def
        write_proto_pre_def write_source_def write_string_def utf8_encode_char_def
        write_code_def write_constants_def write_constant_def write_upvalues_def
        write_upvalue_def write_debug_def write_absline_def write_locvar_def
        pack_B_def pack_q_def le_bytes_def upt_rec seq_w_def write_size_small write_size_0
        write_size_300 VNIL_def VTRUE_def VFALSE_def VNUMINT_def VSHRSTR_def VLNGSTR_def Let_def)

lemma canonical_example_written_tree: "canonical True example_written_tree"
  by (simp add: example_written_tree_def example_node_def new_proto_fields_def
        post_init_ori_def node_ok_def source_ok_def opt_str_ok_def str_ok_def const_ok_def
        size_ok_def code_group_ok_def read_size_with_raw_def size_limit_def Let_def)

text \<open>
  C1, as it holds.  The writer replays captured raw bytes for the instruction group only.
  It regenerates the header from the constants of the program, recomputes the upvalue count
  byte of the main function from the upvalue list, and encodes every other field again from
  its decoded value.  Reading and writing again is therefore byte-exact on what the writer
  itself produces: for every tree \<open>T\<close> that the writer can take (\<open>canonical\<close>) and whose
  output is \<open>B\<close>, \<open>parse\<close> accepts \<open>B\<close>, and writing the tree that \<open>parse\<close> returns gives \<open>B\<close>
  again, byte for byte.
\<close>

theorem roundtrip_canonical:
  assumes "canonical True T" and "write_luac_file T = Inr B"
  shows "\<exists>T'. parse B = Inr T' \<and> write_luac_file T' = Inr B"
proof -
  from assms(2) obtain u W where
    u: "pack_B (length (upvalues (fields_of T))) = Inr u"
    and w: "write_proto T True = Inr W" and B: "B = example_header @ u @ W"
    by (auto simp: write_luac_file_def seq_w_Inr write_header_example)
  from read_proto_write_proto(1) [OF assms(1) w, of "Some []" "[]"] obtain T' where
    r: "read_proto (Some []) W = Inr (T', [])" and w': "write_proto T' True = Inr W"
    and l: "length (upvalues (fields_of T')) = length (upvalues (fields_of T))"
    by auto
  obtain b where ub: "u = [b]" using u by (auto simp: pack_B_def split: if_splits)
  have "parse B = Inr T'"
    by (simp add: parse_def B check_header_example ub read_byte_def r)
  moreover have "write_luac_file T' = Inr B"
    by (simp add: write_luac_file_def write_header_example l u w' seq_w_def B)
  ultimately show ?thesis by blast
qed

theorem roundtrip_canonical_witness:
  "canonical True example_written_tree
   \<and> write_luac_file example_written_tree = Inr example_written_file
   \<and> (\<exists>T'. parse example_written_file = Inr T'
            \<and> write_luac_file T' = Inr example_written_file)"
  using roundtrip_canonical [of example_written_tree example_written_file]
  by (simp add: canonical_example_written_tree write_example_written_tree)

text \<open>
  C1 as stated does not hold for every file that \<open>parse\<close> accepts.  A stripped file stores
  the absent string as the source name of its main prototype.  \<open>read_proto\<close> replaces the
  absent source by the parent source, which is the empty string for the main prototype, and
  \<open>_write_proto\<close> writes the source of the main prototype from the decoded value: the byte
  \<open>0x80\<close> of the input comes back as \<open>0x81\<close>.
\<close>

theorem roundtrip_stripped_counterexample:
  "parse (one_instruction_file 5) = Inr (one_instruction_proto 5 5)
   \<and> write_luac_file (one_instruction_proto 5 5) = Inr (rewritten_one_instruction_file 5)
   \<and> rewritten_one_instruction_file 5 \<noteq> one_instruction_file 5"
proof -
  have "rewritten_one_instruction_file 5 \<noteq> one_instruction_file 5"
    by (simp add: rewritten_one_instruction_file_def one_instruction_file_def)
  then show ?thesis
    by (simp add: parse_one_instruction_file_5 write_one_instruction_proto)
qed

section \<open>Lengths and counts\<close>






section \<open>Errors inside a decode\<close>





named_theorems jit_eval \<open>definitions unfolded to run the LuaJIT reader on concrete data\<close>

lemmas [jit_eval] = read_header_def LUAJIT_SIGNATURE_def read_byte_jit_def read_uleb128_def
  BCDUMP_F_BE_def BCDUMP_F_STRIP_def BCDUMP_F_FFI_def Let_def read_proto_jit_def
  read_proto_head_def read_proto_data_def read_proto_debug_def new_Proto_jit_def








end
